theory Spec2Isabelle
  imports Complex_Main "HOL-Library.Signed_Division" "HOL-Library.Word"
begin

section \<open>The renderer of \<open>camera.h\<close>\<close>

subsection \<open>Errors and integer arithmetic\<close>

text \<open>
  Undefined behaviour and exceptions of the C++ program are values of this type: integer
  division by zero, a \<open>double\<close> converted to an \<open>int\<close> it does not fit in, a signed
  product outside the \<open>int\<close> range, a failed vector allocation, and a vector index outside
  the vector.
\<close>

datatype error = Division_By_Zero | Int_Conversion_Overflow | Int_Overflow | Bad_Alloc | Index_Out_Of_Range

text \<open>
  \<open>int\<close> division of C++ truncates towards zero (\<open>sdiv\<close>) and is undefined for a zero
  divisor.
\<close>

definition int_div :: "int \<Rightarrow> int \<Rightarrow> error + int" where
  "int_div a b = (if b = 0 then Inl Division_By_Zero else Inr (a sdiv b))"

subsection \<open>The row partition of \<open>camera::render\<close>\<close>

text \<open>
  The loop \<open>for (int t = 0; t < thread_count; t++)\<close> of \<open>render\<close>: it computes the pair
  \<open>(start_row, end_row)\<close> captured by the worker thread \<open>t\<close>. The result lists the pairs
  in the order the threads are created.
\<close>

function spawn_loop :: "int \<Rightarrow> int \<Rightarrow> int \<Rightarrow> int \<Rightarrow> (int \<times> int) list" where
  "spawn_loop image_height thread_count rows_per_thread t =
     (if t < thread_count then
        (let start_row = t * rows_per_thread;
             end_row = (if t = thread_count - 1 then image_height
                        else start_row + rows_per_thread)
         in (start_row, end_row) #
            spawn_loop image_height thread_count rows_per_thread (t + 1))
      else [])"
  by pat_completeness auto
termination
  by (relation "measure (\<lambda>(h, n, q, t). nat (n - t))") auto

definition partition_rows :: "int \<Rightarrow> int \<Rightarrow> error + (int \<times> int) list" where
  "partition_rows image_height thread_count =
     (case int_div image_height thread_count of
        Inl e \<Rightarrow> Inl e
      | Inr rows_per_thread \<Rightarrow>
          Inr (spawn_loop image_height thread_count rows_per_thread 0))"

subsection \<open>Vectors, rays and the external collaborators\<close>

text \<open>
  Modelled from the spec: \<open>vec3.h\<close>, \<open>ray.h\<close>, \<open>interval.h\<close> and the constants of
  \<open>rtweekend.h\<close> are not among the sources. A \<open>vec3\<close> (also \<open>point3\<close> and \<open>color\<close>)
  has three components with component-wise addition, subtraction, negation and product,
  scaling by a number, cross product, length and normalisation. A C++ \<open>double\<close> is
  idealised as a real number: rounding, infinities and NaN are outside this model, except
  in the one division of \<open>initialize\<close> whose result is converted to an \<open>int\<close>, which
  is rounded as the division of doubles is.
\<close>

datatype vec3 = Vec3 (vx: real) (vy: real) (vz: real)

type_synonym point3 = vec3
type_synonym color = vec3

instantiation vec3 :: "{zero, plus, minus, uminus, times}"
begin

definition zero_vec3 :: vec3 where
  "zero_vec3 = Vec3 0 0 0"

definition plus_vec3 :: "vec3 \<Rightarrow> vec3 \<Rightarrow> vec3" where
  "plus_vec3 a b = Vec3 (vx a + vx b) (vy a + vy b) (vz a + vz b)"

definition minus_vec3 :: "vec3 \<Rightarrow> vec3 \<Rightarrow> vec3" where
  "minus_vec3 a b = Vec3 (vx a - vx b) (vy a - vy b) (vz a - vz b)"

definition uminus_vec3 :: "vec3 \<Rightarrow> vec3" where
  "uminus_vec3 a = Vec3 (- vx a) (- vy a) (- vz a)"

definition times_vec3 :: "vec3 \<Rightarrow> vec3 \<Rightarrow> vec3" where
  "times_vec3 a b = Vec3 (vx a * vx b) (vy a * vy b) (vz a * vz b)"

instance ..

end

definition smul :: "real \<Rightarrow> vec3 \<Rightarrow> vec3" where
  "smul k a = Vec3 (k * vx a) (k * vy a) (k * vz a)"

definition vdiv :: "vec3 \<Rightarrow> real \<Rightarrow> vec3" where
  "vdiv a k = smul (1 / k) a"

definition cross :: "vec3 \<Rightarrow> vec3 \<Rightarrow> vec3" where
  "cross a b = Vec3 (vy a * vz b - vz a * vy b)
                    (vz a * vx b - vx a * vz b)
                    (vx a * vy b - vy a * vx b)"

definition length_squared :: "vec3 \<Rightarrow> real" where
  "length_squared a = vx a * vx a + vy a * vy a + vz a * vz a"

definition vlength :: "vec3 \<Rightarrow> real" where
  "vlength a = sqrt (length_squared a)"

definition unit_vector :: "vec3 \<Rightarrow> vec3" where
  "unit_vector a = vdiv a (vlength a)"

definition degrees_to_radians :: "real \<Rightarrow> real" where
  "degrees_to_radians degrees = degrees * pi / 180"

text \<open>
  Modelled from the spec: a ray is an origin and a direction; an interval is a lower bound
  and an upper bound that may be \<open>infinity\<close> (\<open>None\<close>).
\<close>

record ray =
  orig :: point3
  dir :: vec3

record interval =
  lo :: real
  hi :: "real option"

text \<open>
  Modelled from the spec: the hit record (point, normal, material reference, parameter
  along the ray, front-face flag), the scene and its materials. \<open>hittable.h\<close> and
  \<open>material.h\<close> are not among the sources, so \<open>hit\<close> and \<open>scatter\<close> are parameters of
  the model. A material is referred to by a value of type \<open>'m\<close>; \<open>scatter\<close> may draw
  random numbers, so it passes the generator state \<open>'g\<close> on.
\<close>

record 'm hit_record =
  rec_p :: point3
  rec_normal :: vec3
  rec_mat :: 'm
  rec_t :: real
  rec_front_face :: bool

record ('m, 'g) hittable =
  hit :: "ray \<Rightarrow> interval \<Rightarrow> 'm hit_record option"
  scatter :: "'m \<Rightarrow> ray \<Rightarrow> 'm hit_record \<Rightarrow> 'g \<Rightarrow> (color \<times> ray) option \<times> 'g"

text \<open>
  Modelled from the spec: the random source (\<open>random_double\<close>, \<open>random_in_unit_disk\<close>)
  is not among the sources. It is a pair of functions on an explicit generator state
  \<open>'g\<close>; each worker thread draws from a stream of its own. The field
  \<open>left_to_right\<close> records a choice of the compiler: whether the two calls of
  \<open>random_double\<close> that are the arguments of one constructor call are evaluated in the
  order they are written, which C++ leaves unspecified.
\<close>

record 'g random_source =
  random_double :: "'g \<Rightarrow> real \<times> 'g"
  random_in_unit_disk :: "'g \<Rightarrow> vec3 \<times> 'g"
  left_to_right :: bool

subsection \<open>The camera\<close>

text \<open>
  The class \<open>camera\<close>: the ten public configuration members, then the private members
  that \<open>initialize\<close> derives from them, and the progress counter. The members \<open>u\<close>,
  \<open>v\<close>, \<open>w\<close> are called \<open>cam_u\<close>, \<open>cam_v\<close>, \<open>cam_w\<close>.
\<close>

record camera =
  aspect_ratio :: real
  image_width :: int
  samples_per_pixel :: int
  max_depth :: int
  vfov :: real
  lookfrom :: point3
  lookat :: point3
  vup :: vec3
  defocus_angle :: real
  focus_dist :: real
  image_height :: int
  pixel_samples_scale :: real
  center :: point3
  pixel00_loc :: point3
  pixel_delta_u :: vec3
  pixel_delta_v :: vec3
  cam_u :: vec3
  cam_v :: vec3
  cam_w :: vec3
  defocus_disk_u :: vec3
  defocus_disk_v :: vec3
  sections_remaining :: int

text \<open>
  The conversion \<open>int(x)\<close> of a \<open>double\<close> truncates towards zero; it is undefined when
  the truncated value is not an \<open>int\<close> (32 bits).
\<close>

definition int_fits :: "int \<Rightarrow> bool" where
  "int_fits k \<longleftrightarrow> - (2 ^ 31) \<le> k \<and> k < 2 ^ 31"

definition double_to_int :: "real \<Rightarrow> error + int" where
  "double_to_int x =
     (let k = (if 0 \<le> x then \<lfloor>x\<rfloor> else \<lceil>x\<rceil>)
      in if int_fits k then Inr k else Inl Int_Conversion_Overflow)"

text \<open>
  Division of two \<open>double\<close> values, where its result is converted to an \<open>int\<close>: the
  exact quotient rounded to the nearest \<open>double\<close> (53 significant bits, ties to the even
  significand, subnormal spacing below \<open>2^-1022\<close>). A quotient beyond the largest
  \<open>double\<close> is infinite in C++ and stays a real beyond the \<open>int\<close> range here; either
  way the conversion to \<open>int\<close> is undefined.
\<close>

definition pow2 :: "int \<Rightarrow> real" where
  "pow2 k = (if 0 \<le> k then 2 ^ nat k else 1 / 2 ^ nat (- k))"

definition round_nearest_even :: "real \<Rightarrow> int" where
  "round_nearest_even x =
     (let f = \<lfloor>x\<rfloor>; d = x - of_int f
      in if d < 1 / 2 then f
         else if 1 / 2 < d then f + 1
         else if even f then f else f + 1)"

definition double_exponent :: "real \<Rightarrow> int" where
  "double_exponent x = max \<lfloor>log 2 \<bar>x\<bar>\<rfloor> (- 1022)"

definition round_double :: "real \<Rightarrow> real" where
  "round_double x =
     (if x = 0 then 0
      else (let ulp = pow2 (double_exponent x - 52)
            in of_int (round_nearest_even (x / ulp)) * ulp))"

definition double_div :: "real \<Rightarrow> real \<Rightarrow> real" where
  "double_div a b = round_double (a / b)"

text \<open>
  \<open>camera::initialize\<close>, one record update for each assignment to a member. The
  quotient \<open>image_width / aspect_ratio\<close> is a division of doubles, rounded before
  \<open>int(...)\<close> truncates it; a zero \<open>aspect_ratio\<close> makes it infinite or NaN, which no
  \<open>int\<close> holds. The other arithmetic of \<open>initialize\<close> is over the reals.
\<close>

definition initialize :: "camera \<Rightarrow> error + camera" where
  "initialize cam =
     (if aspect_ratio cam = 0 then Inl Int_Conversion_Overflow
      else case double_to_int (double_div (real_of_int (image_width cam)) (aspect_ratio cam)) of
        Inl e \<Rightarrow> Inl e
      | Inr height \<Rightarrow>
          (let c1 = cam\<lparr>image_height := height\<rparr>;
               c2 = c1\<lparr>image_height := (if image_height c1 < 1 then 1 else image_height c1)\<rparr>;
               c3 = c2\<lparr>pixel_samples_scale := 1 / real_of_int (samples_per_pixel c2)\<rparr>;
               c4 = c3\<lparr>center := lookfrom c3\<rparr>;
               theta = degrees_to_radians (vfov c4);
               h = tan (theta / 2);
               viewport_height = 2 * h * focus_dist c4;
               viewport_width = viewport_height *
                  (real_of_int (image_width c4) / real_of_int (image_height c4));
               c5 = c4\<lparr>cam_w := unit_vector (lookfrom c4 - lookat c4)\<rparr>;
               c6 = c5\<lparr>cam_u := unit_vector (cross (vup c5) (cam_w c5))\<rparr>;
               c7 = c6\<lparr>cam_v := cross (cam_w c6) (cam_u c6)\<rparr>;
               viewport_u = smul viewport_width (cam_u c7);
               viewport_v = smul viewport_height (- cam_v c7);
               c8 = c7\<lparr>pixel_delta_u := vdiv viewport_u (real_of_int (image_width c7))\<rparr>;
               c9 = c8\<lparr>pixel_delta_v := vdiv viewport_v (real_of_int (image_height c8))\<rparr>;
               viewport_upper_left =
                  center c9 - smul (focus_dist c9) (cam_w c9) - vdiv viewport_u 2 - vdiv viewport_v 2;
               c10 = c9\<lparr>pixel00_loc :=
                  viewport_upper_left + smul 0.5 (pixel_delta_u c9 + pixel_delta_v c9)\<rparr>;
               defocus_radius =
                  focus_dist c10 * tan (degrees_to_radians (defocus_angle c10 / 2));
               c11 = c10\<lparr>defocus_disk_u := smul defocus_radius (cam_u c10)\<rparr>;
               c12 = c11\<lparr>defocus_disk_v := smul defocus_radius (cam_v c11)\<rparr>
           in Inr c12))"

subsection \<open>The ray sampler\<close>

text \<open>
  \<open>sample_square\<close> draws two numbers. The first draw is the \<open>x\<close> offset when the
  arguments of \<open>vec3(random_double() - 0.5, random_double() - 0.5, 0)\<close> are evaluated
  left to right, and the \<open>y\<close> offset otherwise.
\<close>

definition sample_square :: "'g random_source \<Rightarrow> 'g \<Rightarrow> vec3 \<times> 'g" where
  "sample_square rs g =
     (let (a, g1) = random_double rs g;
          (b, g2) = random_double rs g1
      in if left_to_right rs then (Vec3 (a - 0.5) (b - 0.5) 0, g2)
         else (Vec3 (b - 0.5) (a - 0.5) 0, g2))"

definition defocus_disk_sample :: "camera \<Rightarrow> 'g random_source \<Rightarrow> 'g \<Rightarrow> point3 \<times> 'g" where
  "defocus_disk_sample cam rs g =
     (let (p, g1) = random_in_unit_disk rs g
      in (center cam + smul (vx p) (defocus_disk_u cam) + smul (vy p) (defocus_disk_v cam), g1))"

definition get_ray :: "camera \<Rightarrow> 'g random_source \<Rightarrow> int \<Rightarrow> int \<Rightarrow> 'g \<Rightarrow> ray \<times> 'g" where
  "get_ray cam rs i j g =
     (let (offset, g1) = sample_square rs g;
          pixel_sample = pixel00_loc cam
             + smul (real_of_int i + vx offset) (pixel_delta_u cam)
             + smul (real_of_int j + vy offset) (pixel_delta_v cam);
          (ray_origin, g2) = (if defocus_angle cam \<le> 0 then (center cam, g1)
                              else defocus_disk_sample cam rs g1);
          ray_direction = pixel_sample - ray_origin
      in (\<lparr>orig = ray_origin, dir = ray_direction\<rparr>, g2))"

subsection \<open>The path integrator\<close>

function ray_color :: "ray \<Rightarrow> int \<Rightarrow> ('m, 'g) hittable \<Rightarrow> 'g \<Rightarrow> color \<times> 'g" where
  "ray_color r depth world g =
     (if depth \<le> 0 then (Vec3 0 0 0, g)
      else case hit world r \<lparr>lo = 0.001, hi = None\<rparr> of
        Some rec \<Rightarrow>
          (case scatter world (rec_mat rec) r rec g of
             (Some (attenuation, scattered), g1) \<Rightarrow>
               (let (c, g2) = ray_color scattered (depth - 1) world g1
                in (attenuation * c, g2))
           | (None, g1) \<Rightarrow> (Vec3 0 0 0, g1))
      | None \<Rightarrow>
          (let unit_direction = unit_vector (dir r);
               a = 0.5 * (vy unit_direction + 1.0)
           in (smul (1.0 - a) (Vec3 1.0 1.0 1.0) + smul a (Vec3 0.5 0.7 1.0), g)))"
  by pat_completeness auto
termination
  by (relation "measure (\<lambda>(r, depth, world, g). nat depth)") auto

subsection \<open>The framebuffer and the workers\<close>

text \<open>
  The framebuffer is a \<open>std::vector<color>\<close>, indexed with \<open>operator[]\<close>: an index
  outside the vector is undefined behaviour.
\<close>

definition fb_store :: "color list \<Rightarrow> int \<Rightarrow> color \<Rightarrow> error + color list" where
  "fb_store framebuffer index c =
     (if 0 \<le> index \<and> index < int (length framebuffer)
      then Inr (framebuffer[nat index := c])
      else Inl Index_Out_Of_Range)"

definition fb_load :: "color list \<Rightarrow> int \<Rightarrow> error + color" where
  "fb_load framebuffer index =
     (if 0 \<le> index \<and> index < int (length framebuffer)
      then Inr (framebuffer ! nat index)
      else Inl Index_Out_Of_Range)"

text \<open>
  The three nested loops of \<open>render_section\<close>, innermost first: over the samples of a
  pixel, over the columns of a row, over the rows of the section.
\<close>

function sample_loop ::
  "camera \<Rightarrow> 'g random_source \<Rightarrow> ('m, 'g) hittable \<Rightarrow> int \<Rightarrow> int \<Rightarrow> int \<Rightarrow> color \<Rightarrow> 'g
   \<Rightarrow> color \<times> 'g" where
  "sample_loop cam rs world i j sample pixel_color g =
     (if sample < samples_per_pixel cam then
        (let (r, g1) = get_ray cam rs i j g;
             (c, g2) = ray_color r (max_depth cam) world g1
         in sample_loop cam rs world i j (sample + 1) (pixel_color + c) g2)
      else (pixel_color, g))"
  by pat_completeness auto
termination
  by (relation "measure (\<lambda>(cam, rs, world, i, j, sample, pixel_color, g).
        nat (samples_per_pixel cam - sample))") auto

function col_loop ::
  "camera \<Rightarrow> 'g random_source \<Rightarrow> ('m, 'g) hittable \<Rightarrow> int \<Rightarrow> int \<Rightarrow> color list \<Rightarrow> 'g
   \<Rightarrow> error + (color list \<times> 'g)" where
  "col_loop cam rs world j i framebuffer g =
     (if i < image_width cam then
        (let (pixel_color, g1) = sample_loop cam rs world i j 0 (Vec3 0 0 0) g;
             index = j * image_width cam + i
         in case fb_store framebuffer index pixel_color of
              Inl e \<Rightarrow> Inl e
            | Inr framebuffer' \<Rightarrow> col_loop cam rs world j (i + 1) framebuffer' g1)
      else Inr (framebuffer, g))"
  by pat_completeness auto
termination
  by (relation "measure (\<lambda>(cam, rs, world, j, i, framebuffer, g).
        nat (image_width cam - i))") auto

function row_loop ::
  "camera \<Rightarrow> 'g random_source \<Rightarrow> ('m, 'g) hittable \<Rightarrow> int \<Rightarrow> int \<Rightarrow> color list \<Rightarrow> 'g
   \<Rightarrow> error + (color list \<times> 'g)" where
  "row_loop cam rs world end_row j framebuffer g =
     (if j < end_row then
        (case col_loop cam rs world j 0 framebuffer g of
           Inl e \<Rightarrow> Inl e
         | Inr (framebuffer', g1) \<Rightarrow> row_loop cam rs world end_row (j + 1) framebuffer' g1)
      else Inr (framebuffer, g))"
  by pat_completeness auto
termination
  by (relation "measure (\<lambda>(cam, rs, world, end_row, j, framebuffer, g).
        nat (end_row - j))") auto

text \<open>
  \<open>render_section\<close> fills its rows and then decrements the progress counter.
\<close>

definition render_section ::
  "camera \<Rightarrow> 'g random_source \<Rightarrow> ('m, 'g) hittable \<Rightarrow> color list \<Rightarrow> int \<Rightarrow> int \<Rightarrow> int \<Rightarrow> 'g
   \<Rightarrow> error + (color list \<times> int)" where
  "render_section cam rs world framebuffer start_row end_row remaining g =
     (case row_loop cam rs world end_row start_row framebuffer g of
        Inl e \<Rightarrow> Inl e
      | Inr (framebuffer', g') \<Rightarrow> Inr (framebuffer', remaining - 1))"

text \<open>
  The worker threads and the join. Worker \<open>t\<close> runs \<open>render_section\<close> on its row range
  with the generator state \<open>seeds t\<close>; the workers are run one after the other, in the
  order of their creation, each on the framebuffer the previous one left.
\<close>

fun run_sections ::
  "camera \<Rightarrow> 'g random_source \<Rightarrow> ('m, 'g) hittable \<Rightarrow> (nat \<Rightarrow> 'g) \<Rightarrow> (int \<times> int) list \<Rightarrow> nat
   \<Rightarrow> color list \<Rightarrow> int \<Rightarrow> error + (color list \<times> int)" where
  "run_sections cam rs world seeds [] t framebuffer remaining = Inr (framebuffer, remaining)"
| "run_sections cam rs world seeds ((start_row, end_row) # secs) t framebuffer remaining =
     (case render_section cam rs world framebuffer start_row end_row remaining (seeds t) of
        Inl e \<Rightarrow> Inl e
      | Inr (framebuffer', remaining') \<Rightarrow>
          run_sections cam rs world seeds secs (Suc t) framebuffer' remaining')"

text \<open>
  The emission loops of \<open>render\<close>. The list \<open>out\<close> holds the colors handed to
  \<open>write_color\<close>, in order.
\<close>

function emit_cols :: "camera \<Rightarrow> color list \<Rightarrow> int \<Rightarrow> int \<Rightarrow> color list \<Rightarrow> error + color list" where
  "emit_cols cam framebuffer j i out =
     (if i < image_width cam then
        (let index = j * image_width cam + i
         in case fb_load framebuffer index of
              Inl e \<Rightarrow> Inl e
            | Inr c \<Rightarrow>
                emit_cols cam framebuffer j (i + 1) (out @ [smul (pixel_samples_scale cam) c]))
      else Inr out)"
  by pat_completeness auto
termination
  by (relation "measure (\<lambda>(cam, framebuffer, j, i, out). nat (image_width cam - i))") auto

function emit_rows :: "camera \<Rightarrow> color list \<Rightarrow> int \<Rightarrow> color list \<Rightarrow> error + color list" where
  "emit_rows cam framebuffer j out =
     (if j < image_height cam then
        (case emit_cols cam framebuffer j 0 out of
           Inl e \<Rightarrow> Inl e
         | Inr out' \<Rightarrow> emit_rows cam framebuffer (j + 1) out')
      else Inr out)"
  by pat_completeness auto
termination
  by (relation "measure (\<lambda>(cam, framebuffer, j, out). nat (image_height cam - j))") auto

text \<open>
  \<open>std::vector<color> framebuffer(image_width * image_height)\<close>: the product is an
  \<open>int\<close>; the elements are constructed as \<open>(0,0,0)\<close>.
\<close>

definition allocate_framebuffer :: "int \<Rightarrow> int \<Rightarrow> error + color list" where
  "allocate_framebuffer width height =
     (let n = width * height
      in if \<not> int_fits n then Inl Int_Overflow
         else if n < 0 then Inl Bad_Alloc
         else Inr (replicate (nat n) (Vec3 0 0 0)))"

text \<open>
  \<open>camera::render\<close>. \<open>std::thread::hardware_concurrency()\<close> returns an
  \<open>unsigned int\<close>, which is stored in the \<open>int thread_count\<close>. The result is the camera
  after the call, the framebuffer after the join, and the colors handed to \<open>write_color\<close>.
\<close>

definition render ::
  "camera \<Rightarrow> 'g random_source \<Rightarrow> ('m, 'g) hittable \<Rightarrow> 32 word \<Rightarrow> (nat \<Rightarrow> 'g)
   \<Rightarrow> error + (camera \<times> color list \<times> color list)" where
  "render cam rs world hardware_concurrency seeds =
     (case initialize cam of
        Inl e \<Rightarrow> Inl e
      | Inr cam1 \<Rightarrow>
     (case allocate_framebuffer (image_width cam1) (image_height cam1) of
        Inl e \<Rightarrow> Inl e
      | Inr framebuffer \<Rightarrow>
     (let thread_count = sint hardware_concurrency
      in case partition_rows (image_height cam1) thread_count of
        Inl e \<Rightarrow> Inl e
      | Inr sections \<Rightarrow>
     (let cam2 = cam1\<lparr>sections_remaining := thread_count\<rparr>
      in case run_sections cam2 rs world seeds sections 0 framebuffer (sections_remaining cam2) of
        Inl e \<Rightarrow> Inl e
      | Inr (framebuffer', remaining) \<Rightarrow>
     (let cam3 = cam2\<lparr>sections_remaining := remaining\<rparr>
      in case emit_rows cam3 framebuffer' 0 [] of
        Inl e \<Rightarrow> Inl e
      | Inr out \<Rightarrow> Inr (cam3, framebuffer', out))))))"

subsection \<open>Specification functions\<close>

text \<open>
  The framebuffer indices that \<open>render_section\<close> writes, in the order of its two outer
  loops, and the rows its outer loop visits.
\<close>

function col_indices :: "int \<Rightarrow> int \<Rightarrow> int \<Rightarrow> int list" where
  "col_indices width j i =
     (if i < width then (j * width + i) # col_indices width j (i + 1)
      else [])"
  by pat_completeness auto
termination
  by (relation "measure (\<lambda>(w, j, i). nat (w - i))") auto

function row_indices :: "int \<Rightarrow> int \<Rightarrow> int \<Rightarrow> int list" where
  "row_indices width end_row j =
     (if j < end_row then col_indices width j 0 @ row_indices width end_row (j + 1)
      else [])"
  by pat_completeness auto
termination
  by (relation "measure (\<lambda>(w, e, j). nat (e - j))") auto

definition section_indices :: "int \<Rightarrow> int \<times> int \<Rightarrow> int list" where
  "section_indices width sec = row_indices width (snd sec) (fst sec)"

definition section_rows :: "int \<times> int \<Rightarrow> int list" where
  "section_rows sec = [fst sec..snd sec - 1]"

text \<open>
  The colors that the sample loop of a pixel adds up, in order: \<open>n\<close> samples drawn from
  the generator state \<open>g\<close>.
\<close>

fun sample_colors ::
  "camera \<Rightarrow> 'g random_source \<Rightarrow> ('m, 'g) hittable \<Rightarrow> int \<Rightarrow> int \<Rightarrow> nat \<Rightarrow> 'g \<Rightarrow> color list" where
  "sample_colors cam rs world i j 0 g = []"
| "sample_colors cam rs world i j (Suc n) g =
     (let (r, g1) = get_ray cam rs i j g;
          (c, g2) = ray_color r (max_depth cam) world g1
      in c # sample_colors cam rs world i j n g2)"

declare spawn_loop.simps [simp del] col_indices.simps [simp del] row_indices.simps [simp del]
  ray_color.simps [simp del] sample_loop.simps [simp del] col_loop.simps [simp del] row_loop.simps [simp del]
  emit_cols.simps [simp del] emit_rows.simps [simp del]

text \<open>
  The value that the sample loop leaves in a pixel, and the statement that a framebuffer
  holds such a value at the index of pixel \<open>(i,j)\<close>.
\<close>

definition pixel_sum ::
  "camera \<Rightarrow> 'g random_source \<Rightarrow> ('m, 'g) hittable \<Rightarrow> int \<Rightarrow> int \<Rightarrow> 'g \<Rightarrow> color" where
  "pixel_sum cam rs world i j g =
     foldl (+) (Vec3 0 0 0) (sample_colors cam rs world i j (nat (samples_per_pixel cam)) g)"

definition pixel_done ::
  "camera \<Rightarrow> 'g random_source \<Rightarrow> ('m, 'g) hittable \<Rightarrow> color list \<Rightarrow> int \<Rightarrow> int \<Rightarrow> bool" where
  "pixel_done cam rs world framebuffer i j \<longleftrightarrow>
     (\<exists>g. framebuffer ! nat (j * image_width cam + i) = pixel_sum cam rs world i j g)"

text \<open>
  Two cameras have the same configuration when their public members agree.
\<close>

definition same_config :: "camera \<Rightarrow> camera \<Rightarrow> bool" where
  "same_config c1 c2 \<longleftrightarrow>
     aspect_ratio c1 = aspect_ratio c2 \<and> image_width c1 = image_width c2 \<and>
     samples_per_pixel c1 = samples_per_pixel c2 \<and> max_depth c1 = max_depth c2 \<and>
     vfov c1 = vfov c2 \<and> lookfrom c1 = lookfrom c2 \<and> lookat c1 = lookat c2 \<and>
     vup c1 = vup c2 \<and> defocus_angle c1 = defocus_angle c2 \<and> focus_dist c1 = focus_dist c2"

subsection \<open>Concrete inputs\<close>

text \<open>
  The camera with the default member initialisers of the class; \<open>aspect_ratio\<close> is the
  double \<open>16.0 / 9.0\<close>. C++ leaves the private members uninitialised; here they are
  zero.
\<close>

definition default_camera :: camera where
  "default_camera = \<lparr>aspect_ratio = double_div 16 9, image_width = 400, samples_per_pixel = 10,
     max_depth = 10, vfov = 90, lookfrom = Vec3 0 0 0, lookat = Vec3 0 0 (- 1),
     vup = Vec3 0 1 0, defocus_angle = 0, focus_dist = 10,
     image_height = 0, pixel_samples_scale = 0, center = Vec3 0 0 0, pixel00_loc = Vec3 0 0 0,
     pixel_delta_u = Vec3 0 0 0, pixel_delta_v = Vec3 0 0 0, cam_u = Vec3 0 0 0,
     cam_v = Vec3 0 0 0, cam_w = Vec3 0 0 0, defocus_disk_u = Vec3 0 0 0,
     defocus_disk_v = Vec3 0 0 0, sections_remaining = 0\<rparr>"

definition test_source :: "nat random_source" where
  "test_source = \<lparr>random_double = (\<lambda>g. (1 / 2, Suc g)),
                   random_in_unit_disk = (\<lambda>g. (Vec3 0 0 0, Suc g)),
                   left_to_right = True\<rparr>"

definition test_seeds :: "nat \<Rightarrow> nat" where
  "test_seeds t = 0"

definition empty_world :: "(bool, nat) hittable" where
  "empty_world = \<lparr>hit = (\<lambda>r ray_t. None), scatter = (\<lambda>m r rec g. (None, g))\<rparr>"

definition test_world :: "(bool, nat) hittable" where
  "test_world =
     \<lparr>hit = (\<lambda>r ray_t.
         if vx (orig r) < 1
         then Some \<lparr>rec_p = orig r, rec_normal = Vec3 0 1 0, rec_mat = (vx (orig r) < 0),
                    rec_t = 1, rec_front_face = True\<rparr>
         else None),
      scatter = (\<lambda>m r rec g.
         if m then (Some (Vec3 (1 / 2) (1 / 2) (1 / 2), \<lparr>orig = Vec3 1 0 0, dir = Vec3 0 1 0\<rparr>), Suc g)
         else (None, g))\<rparr>"

definition test_camera :: camera where
  "test_camera = default_camera\<lparr>image_width := 2, image_height := 2, samples_per_pixel := 1,
     pixel_samples_scale := 1, pixel00_loc := Vec3 (- 1) 1 (- 1), pixel_delta_u := Vec3 2 0 0,
     pixel_delta_v := Vec3 0 (- 2) 0\<rparr>"

text \<open>
  The scenario of a 2 by 2 image with one sample per pixel and depth 1.
\<close>

definition test_config :: camera where
  "test_config = default_camera\<lparr>aspect_ratio := 1, image_width := 2, samples_per_pixel := 1,
     max_depth := 1\<rparr>"


definition sum_config :: camera where
  "sum_config = default_camera\<lparr>aspect_ratio := 1, image_width := 2, samples_per_pixel := 2,
     max_depth := 2, lookfrom := Vec3 (- 1) 0 0, lookat := Vec3 (- 1) 0 (- 1)\<rparr>"

section \<open>Lemmas\<close>

subsection \<open>Rounded division\<close>

lemma pow2_pos: "0 < pow2 k"
  by (simp add: pow2_def)

lemma pow2_powr: "pow2 k = 2 powr (of_int k)"
proof (cases "0 \<le> k")
  case True
  then have "2 powr (of_int k) = (2::real) powr (real (nat k))" by simp
  also have "\<dots> = 2 ^ nat k" by (simp add: powr_realpow)
  finally show ?thesis using True by (simp add: pow2_def)
next
  case False
  then have "k = - int (nat (- k))" by simp
  then have "(of_int k :: real) = - real (nat (- k))" by (metis of_int_minus of_int_of_nat_eq)
  then have "2 powr (of_int k) = (2::real) powr (- real (nat (- k)))" by (rule arg_cong)
  also have "\<dots> = 1 / (2 powr real (nat (- k)))" by (rule powr_minus_divide)
  also have "(2::real) powr real (nat (- k)) = 2 ^ nat (- k)" by (rule powr_realpow) simp
  finally show ?thesis using False by (simp only: pow2_def if_False)
qed

lemma double_exponent_eq:
  assumes "pow2 e \<le> \<bar>x\<bar>" "\<bar>x\<bar> < pow2 (e + 1)" "- 1022 \<le> e"
  shows "double_exponent x = e"
proof -
  have pos: "0 < \<bar>x\<bar>" using assms(1) pow2_pos [of e] by linarith
  have "of_int e \<le> log 2 \<bar>x\<bar>"
    using assms(1) pos by (simp add: le_log_iff pow2_powr)
  moreover have "log 2 \<bar>x\<bar> < of_int e + 1"
    using assms(2) pos by (simp add: log_less_iff pow2_powr)
  ultimately have "\<lfloor>log 2 \<bar>x\<bar>\<rfloor> = e" by (intro floor_unique) auto
  with assms(3) show ?thesis by (simp add: double_exponent_def)
qed

lemma round_double_at:
  assumes "pow2 e \<le> \<bar>x\<bar>" "\<bar>x\<bar> < pow2 (e + 1)" "- 1022 \<le> e"
  shows "round_double x = of_int (round_nearest_even (x / pow2 (e - 52))) * pow2 (e - 52)"
proof -
  have "x \<noteq> 0" using assms(1) pow2_pos [of e] by auto
  then show ?thesis
    unfolding round_double_def Let_def double_exponent_eq [OF assms] by (rule if_not_P)
qed

lemma round_nearest_even_nonneg:
  assumes "0 \<le> x"
  shows "0 \<le> round_nearest_even x"
proof -
  from assms have "0 \<le> \<lfloor>x\<rfloor>" by simp
  then have "0 \<le> \<lfloor>x\<rfloor> + 1" by simp
  with \<open>0 \<le> \<lfloor>x\<rfloor>\<close> show ?thesis unfolding round_nearest_even_def Let_def
    by (simp only: if_split) blast
qed

lemma round_double_nonneg:
  assumes "0 \<le> x"
  shows "0 \<le> round_double x"
proof (cases "x = 0")
  case True
  then show ?thesis by (simp add: round_double_def)
next
  case False
  let ?u = "pow2 (double_exponent x - 52)"
  have u: "0 < ?u" by (rule pow2_pos)
  with assms have "0 \<le> x / ?u" by simp
  then have "0 \<le> round_nearest_even (x / ?u)" by (rule round_nearest_even_nonneg)
  then have "0 \<le> real_of_int (round_nearest_even (x / ?u)) * ?u" using u by simp
  with False show ?thesis unfolding round_double_def Let_def by (simp only: if_False)
qed

lemma double_div_16_9: "double_div 16 9 = 2001599834386887 / 1125899906842624"
  unfolding double_div_def
  by (subst round_double_at [of 0]) (simp_all add: pow2_def round_nearest_even_def Let_def)

lemma double_div_400: "double_div 400 (double_div 16 9) = 225"
  unfolding double_div_16_9 unfolding double_div_def
  by (subst round_double_at [of 7]) (simp_all add: pow2_def round_nearest_even_def Let_def)

lemma double_div_400_lit: "double_div 400 (2001599834386887 / 1125899906842624) = 225"
  using double_div_400 by (simp only: double_div_16_9)

lemma double_div_2_1: "double_div 2 1 = 2"
  unfolding double_div_def
  by (subst round_double_at [of 1]) (simp_all add: pow2_def round_nearest_even_def Let_def)

lemma double_div_3_tenth: "double_div 3 (3602879701896397 / 36028797018963968) = 30"
  unfolding double_div_def
  by (subst round_double_at [of 4]) (simp_all add: pow2_def round_nearest_even_def Let_def)

lemma double_div_overflow: "double_div 400 (1 / 134217728) = 53687091200"
  unfolding double_div_def
  by (subst round_double_at [of 35]) (simp_all add: pow2_def round_nearest_even_def Let_def)

subsection \<open>The row partition\<close>

lemma sdiv_nonneg: "0 \<le> a \<Longrightarrow> 0 < b \<Longrightarrow> (a::int) sdiv b = a div b"
  by (simp add: signed_divide_int_def sgn_if)

lemma spawn_loop_eq:
  "spawn_loop h n q t = map (\<lambda>t. (t * q, if t = n - 1 then h else t * q + q)) [t..n - 1]"
proof (induction h n q t rule: spawn_loop.induct)
  case (1 h n q t)
  show ?case
  proof (cases "t < n")
    case True
    then have "[t..n - 1] = t # [t + 1..n - 1]" by (simp add: upto_rec1)
    with True 1 show ?thesis by (simp add: spawn_loop.simps [of h n q t] Let_def)
  next
    case False
    then show ?thesis by (simp add: spawn_loop.simps [of h n q t])
  qed
qed

lemma col_indices_eq: "col_indices w j i = map (\<lambda>i. j * w + i) [i..w - 1]"
proof (induction w j i rule: col_indices.induct)
  case (1 w j i)
  show ?case
  proof (cases "i < w")
    case True
    then have "[i..w - 1] = i # [i + 1..w - 1]" by (simp add: upto_rec1)
    with True 1 show ?thesis by (simp add: col_indices.simps [of w j i])
  next
    case False
    then show ?thesis by (simp add: col_indices.simps [of w j i])
  qed
qed

lemma col_indices_upto: "0 \<le> w \<Longrightarrow> col_indices w j 0 = [j * w..j * w + w - 1]"
proof -
  assume "0 \<le> w"
  have "map (\<lambda>i. a + i) [0..b] = [a..a + b]" for a b :: int
  proof (induction "nat (b + 1)" arbitrary: b)
    case 0
    then show ?case by simp
  next
    case (Suc n)
    then have b: "0 \<le> b" by linarith
    then have "[0..b] = [0..b - 1] @ [b]" by (simp add: upto_rec2)
    moreover have "[a..a + b] = [a..a + b - 1] @ [a + b]" using b by (simp add: upto_rec2)
    moreover have "map (\<lambda>i. a + i) [0..b - 1] = [a..a + (b - 1)]" using Suc by simp
    ultimately show ?case by (simp add: add_diff_eq)
  qed
  from this [of "j * w" "w - 1"] show ?thesis by (simp add: col_indices_eq add_diff_eq)
qed

lemma upto_append: "i \<le> j \<Longrightarrow> j \<le> k + 1 \<Longrightarrow> [i..j - 1] @ [j..k] = [i..k]"
proof -
  assume a: "i \<le> j" "j \<le> k + 1"
  show ?thesis
  proof (cases "j \<le> k")
    case True
    with a show ?thesis by (simp add: upto_split1 [of i j k])
  next
    case False
    with a have "j = k + 1" by simp
    then show ?thesis by simp
  qed
qed

lemma row_indices_upto:
  "0 \<le> w \<Longrightarrow> j \<le> e \<Longrightarrow> row_indices w e j = [j * w..e * w - 1]"
proof (induction w e j rule: row_indices.induct)
  case (1 w e j)
  show ?case
  proof (cases "j < e")
    case True
    with 1 have ih: "row_indices w e (j + 1) = [(j + 1) * w..e * w - 1]" by simp
    have le: "(j + 1) * w \<le> e * w" using True "1.prems" by (intro mult_right_mono) auto
    have "[j * w..(j + 1) * w - 1] @ [(j + 1) * w..e * w - 1] = [j * w..e * w - 1]"
      using le "1.prems" by (intro upto_append) (auto simp: algebra_simps)
    moreover have "col_indices w j 0 = [j * w..(j + 1) * w - 1]"
      using "1.prems" by (simp add: col_indices_upto algebra_simps)
    ultimately show ?thesis using True ih by (simp add: row_indices.simps [of w e j])
  next
    case False
    with "1.prems" have "j = e" by simp
    then show ?thesis by (simp add: row_indices.simps [of w e e])
  qed
qed

lemma section_indices_upto:
  "0 \<le> w \<Longrightarrow> s \<le> e \<Longrightarrow> section_indices w (s, e) = [s * w..e * w - 1]"
  by (simp add: section_indices_def row_indices_upto)

lemma spawn_loop_length: "length (spawn_loop h n q t) = nat (n - t)"
  by (simp add: spawn_loop_eq)

lemma spawn_loop_nth:
  "0 \<le> t \<Longrightarrow> t < n \<Longrightarrow>
   spawn_loop h n q 0 ! nat t = (t * q, if t = n - 1 then h else t * q + q)"
  by (simp add: spawn_loop_eq)

lemma spawn_loop_rows:
  "0 \<le> q \<Longrightarrow> n * q \<le> h \<Longrightarrow> 0 \<le> t \<Longrightarrow> t < n \<Longrightarrow>
   concat (map section_rows (spawn_loop h n q t)) = [t * q..h - 1]"
proof (induction h n q t rule: spawn_loop.induct)
  case (1 h n q t)
  show ?case
  proof (cases "t = n - 1")
    case True
    then have "spawn_loop h n q (t + 1) = []" by (simp add: spawn_loop.simps [of h n q n])
    with True "1.prems" show ?thesis
      by (simp add: spawn_loop.simps [of h n q "n - 1"] section_rows_def)
  next
    case False
    with "1.prems" have lt: "t + 1 < n" by simp
    with 1 have ih: "concat (map section_rows (spawn_loop h n q (t + 1))) = [(t + 1) * q..h - 1]"
      by simp
    have "(t + 1) * q \<le> n * q" using lt "1.prems" by (intro mult_right_mono) auto
    with "1.prems" have le: "(t + 1) * q \<le> h" by simp
    have "[t * q..(t + 1) * q - 1] @ [(t + 1) * q..h - 1] = [t * q..h - 1]"
      using le "1.prems" by (intro upto_append) (auto simp: algebra_simps)
    moreover have "section_rows (t * q, t * q + q) = [t * q..(t + 1) * q - 1]"
      by (simp add: section_rows_def algebra_simps)
    ultimately show ?thesis using False "1.prems" ih
      by (simp add: spawn_loop.simps [of h n q t] Let_def)
  qed
qed

lemma spawn_loop_indices:
  "0 \<le> w \<Longrightarrow> 0 \<le> q \<Longrightarrow> n * q \<le> h \<Longrightarrow> 0 \<le> t \<Longrightarrow> t < n \<Longrightarrow>
   concat (map (section_indices w) (spawn_loop h n q t)) = [t * q * w..h * w - 1]"
proof (induction h n q t rule: spawn_loop.induct)
  case (1 h n q t)
  have tq: "t * q \<le> n * q" using "1.prems" by (intro mult_right_mono) auto
  show ?case
  proof (cases "t = n - 1")
    case True
    then have "spawn_loop h n q (t + 1) = []" by (simp add: spawn_loop.simps [of h n q n])
    moreover have "section_indices w (t * q, h) = [t * q * w..h * w - 1]"
      using tq "1.prems" by (intro section_indices_upto) auto
    ultimately show ?thesis using True "1.prems"
      by (simp add: spawn_loop.simps [of h n q "n - 1"])
  next
    case False
    with "1.prems" have lt: "t + 1 < n" by simp
    with 1 have ih: "concat (map (section_indices w) (spawn_loop h n q (t + 1)))
        = [(t + 1) * q * w..h * w - 1]"
      by simp
    have "(t + 1) * q \<le> n * q" using lt "1.prems" by (intro mult_right_mono) auto
    with "1.prems" have le: "(t + 1) * q \<le> h" by simp
    then have le': "(t + 1) * q * w \<le> h * w" using "1.prems" by (intro mult_right_mono) auto
    have ge: "t * q * w \<le> (t + 1) * q * w"
      using "1.prems" by (intro mult_right_mono) (auto simp: algebra_simps)
    have sec: "section_indices w (t * q, t * q + q) = [t * q * w..(t + 1) * q * w - 1]"
      using "1.prems" by (simp add: section_indices_upto algebra_simps)
    have "[t * q * w..(t + 1) * q * w - 1] @ [(t + 1) * q * w..h * w - 1] = [t * q * w..h * w - 1]"
      using le' ge by (intro upto_append) auto
    then show ?thesis using False "1.prems" ih sec
      by (simp add: spawn_loop.simps [of h n q t] Let_def)
  qed
qed

lemma div_bounds: "0 \<le> h \<Longrightarrow> 1 \<le> n \<Longrightarrow> 0 \<le> h div n \<and> n * (h div n) \<le> (h::int)"
proof -
  assume a: "0 \<le> h" "1 \<le> n"
  have "n * (h div n) + h mod n = h" by simp
  moreover have "0 \<le> h mod n" using a by simp
  ultimately have "n * (h div n) \<le> h" by linarith
  with a show ?thesis by (simp add: pos_imp_zdiv_nonneg_iff)
qed

lemma partition_rows_ok:
  "0 \<le> h \<Longrightarrow> 1 \<le> n \<Longrightarrow> partition_rows h n = Inr (spawn_loop h n (h div n) 0)"
  by (simp add: partition_rows_def int_div_def sdiv_nonneg)

lemma int_index_ex1:
  assumes "\<exists>!t::int. 0 \<le> t \<and> t < n \<and> P t"
  shows "\<exists>!i::nat. i < nat n \<and> P (int i)"
proof -
  from assms obtain t where t: "0 \<le> t" "t < n" "P t"
    and uniq: "\<And>u. 0 \<le> u \<Longrightarrow> u < n \<Longrightarrow> P u \<Longrightarrow> u = t" by blast
  show ?thesis
  proof (rule ex1I [of _ "nat t"])
    show "nat t < nat n \<and> P (int (nat t))" using t by simp
  next
    fix i assume "i < nat n \<and> P (int i)"
    then have "int i = t" by (intro uniq) auto
    then show "i = nat t" by simp
  qed
qed

lemma row_owner_int:
  assumes q: "0 \<le> q" "n * q \<le> h" and n: "1 \<le> n" and r: "0 \<le> r" "r < h"
  shows "\<exists>!t::int. 0 \<le> t \<and> t < n \<and>
           t * q \<le> r \<and> r < (if t = n - 1 then h else t * q + q)"
proof -
  let ?own = "\<lambda>t. t * q \<le> r \<and> r < (if t = n - 1 then h else t * q + q)"
  have ex: "\<exists>t. 0 \<le> t \<and> t < n \<and> ?own t"
  proof (cases "q = 0 \<or> n - 1 \<le> r div q")
    case True
    have "(n - 1) * q \<le> r"
    proof (cases "q = 0")
      case True
      then show ?thesis using r by simp
    next
      case False
      with True q have qpos: "0 < q" and "n - 1 \<le> r div q" by auto
      then have "(n - 1) * q \<le> (r div q) * q" by (intro mult_right_mono) auto
      also have "\<dots> \<le> r" using qpos div_bounds [of r q] r by (simp add: mult.commute)
      finally show ?thesis .
    qed
    then have "?own (n - 1)" using r by simp
    then show ?thesis using n by (intro exI [of _ "n - 1"]) simp
  next
    case False
    with q have qpos: "0 < q" and lt: "r div q < n - 1" by auto
    have lo: "(r div q) * q \<le> r" using qpos div_bounds [of r q] r by (simp add: mult.commute)
    have m: "r mod q < q" using qpos by simp
    have "q * (r div q) + r mod q = r" by (rule mult_div_mod_eq)
    with m have "r < q * (r div q) + q" by linarith
    then have hi: "r < (r div q) * q + q" by (simp add: mult.commute)
    have "0 \<le> r div q" using qpos r by (simp add: pos_imp_zdiv_nonneg_iff)
    then show ?thesis using lt lo hi by (intro exI [of _ "r div q"]) auto
  qed
  have uniq: "t1 = t2" if t1: "0 \<le> t1" "t1 < n" "?own t1" and t2: "0 \<le> t2" "t2 < n" "?own t2"
    for t1 t2
  proof -
    have no: False if lt: "a < b" and a: "0 \<le> a" "?own a" and b: "b < n" "?own b" for a b
    proof -
      from lt b have "a \<noteq> n - 1" by simp
      with a have "r < (a + 1) * q" by (simp add: algebra_simps)
      also have "(a + 1) * q \<le> b * q" using lt q by (intro mult_right_mono) auto
      also have "\<dots> \<le> r" using b by simp
      finally show False by simp
    qed
    show ?thesis
    proof (rule ccontr)
      assume "t1 \<noteq> t2"
      then consider "t1 < t2" | "t2 < t1" by linarith
      then show False using no [of t1 t2] no [of t2 t1] t1 t2 by cases auto
    qed
  qed
  from ex uniq show ?thesis by blast
qed

lemma row_owner:
  assumes "0 \<le> q" "n * q \<le> h" "1 \<le> n" "0 \<le> r" "r < h"
  shows "\<exists>!t. t < length (spawn_loop h n q 0) \<and>
           fst (spawn_loop h n q 0 ! t) \<le> r \<and> r < snd (spawn_loop h n q 0 ! t)"
proof -
  have eq: "(fst (spawn_loop h n q 0 ! t) \<le> r \<and> r < snd (spawn_loop h n q 0 ! t)) =
        (int t * q \<le> r \<and> r < (if int t = n - 1 then h else int t * q + q))"
    if "t < nat n" for t
    using that spawn_loop_nth [of "int t" n h q] by simp
  have "\<exists>!t. t < nat n \<and> (int t * q \<le> r \<and> r < (if int t = n - 1 then h else int t * q + q))"
    using row_owner_int [OF assms] by (rule int_index_ex1)
  then show ?thesis using eq by (simp add: spawn_loop_length cong: conj_cong)
qed

lemma section_ordered:
  assumes "0 \<le> q" "n * q \<le> h" "t < nat n"
  shows "fst (spawn_loop h n q 0 ! t) \<le> snd (spawn_loop h n q 0 ! t)"
proof -
  have "int t * q \<le> n * q" using assms by (intro mult_right_mono) auto
  with assms have le: "int t * q \<le> h" by simp
  have "spawn_loop h n q 0 ! t = (int t * q, if int t = n - 1 then h else int t * q + q)"
    using assms spawn_loop_nth [of "int t" n h q] by simp
  then show ?thesis using le assms by (simp split: if_splits)
qed

lemma le_div_iff_int: "0 < w \<Longrightarrow> s \<le> k div w \<longleftrightarrow> s * w \<le> (k::int)"
proof
  assume w: "0 < w" and "s \<le> k div w"
  then have "s * w \<le> (k div w) * w" by (intro mult_right_mono) auto
  also have "\<dots> \<le> k"
  proof -
    have "w * (k div w) + k mod w = k" by (rule mult_div_mod_eq)
    moreover have "0 \<le> k mod w" using w by simp
    ultimately have "w * (k div w) \<le> k" by linarith
    then show ?thesis by (simp add: mult.commute)
  qed
  finally show "s * w \<le> k" .
next
  assume w: "0 < w" and le: "s * w \<le> k"
  show "s \<le> k div w"
  proof (rule ccontr)
    assume "\<not> s \<le> k div w"
    then have "k div w + 1 \<le> s" by simp
    then have "(k div w + 1) * w \<le> s * w" using w by (intro mult_right_mono) auto
    with le have "(k div w) * w + w \<le> k" by (simp add: algebra_simps)
    moreover have "k mod w < w" using w by simp
    moreover have "w * (k div w) + k mod w = k" by (rule mult_div_mod_eq)
    ultimately show False by (simp add: mult.commute)
  qed
qed

lemma in_section_indices:
  assumes "0 < w" "s \<le> e"
  shows "k \<in> set (section_indices w (s, e)) \<longleftrightarrow> s \<le> k div w \<and> k div w < e"
proof -
  have "k \<in> set (section_indices w (s, e)) \<longleftrightarrow> s * w \<le> k \<and> k < e * w"
    using assms by (auto simp: section_indices_upto)
  also have "\<dots> \<longleftrightarrow> s \<le> k div w \<and> k div w < e"
    using le_div_iff_int [OF assms(1), of s k] le_div_iff_int [OF assms(1), of e k] by auto
  finally show ?thesis .
qed

lemma index_owner:
  assumes "0 \<le> q" "n * q \<le> h" "1 \<le> n" "0 \<le> k" "k < w * h"
  shows "\<exists>!t. t < length (spawn_loop h n q 0) \<and>
           k \<in> set (section_indices w (spawn_loop h n q 0 ! t))"
proof -
  have w: "0 < w"
  proof (rule ccontr)
    assume "\<not> 0 < w"
    moreover have "0 \<le> n * q" using assms by simp
    then have "0 \<le> h" using assms by linarith
    ultimately have "w * h \<le> 0" by (intro mult_nonpos_nonneg) auto
    with assms show False by simp
  qed
  let ?r = "k div w"
  have r: "0 \<le> ?r" "?r < h"
    using assms w le_div_iff_int [OF w, of h k] by (simp_all add: pos_imp_zdiv_nonneg_iff mult.commute)
  have eq: "k \<in> set (section_indices w (spawn_loop h n q 0 ! t)) \<longleftrightarrow>
      fst (spawn_loop h n q 0 ! t) \<le> ?r \<and> ?r < snd (spawn_loop h n q 0 ! t)"
    if "t < length (spawn_loop h n q 0)" for t
    using in_section_indices [OF w, of "fst (spawn_loop h n q 0 ! t)" "snd (spawn_loop h n q 0 ! t)" k]
      section_ordered [of q n h t] assms that by (simp add: spawn_loop_length)
  show ?thesis using row_owner [OF assms(1-3) r] eq by (simp cong: conj_cong)
qed

lemma row_indices_empty: "w \<le> 0 \<Longrightarrow> row_indices w e j = []"
proof (induction w e j rule: row_indices.induct)
  case (1 w e j)
  then show ?case
    by (simp add: row_indices.simps [of w e j] col_indices.simps [of w j 0])
qed

lemma sections_indices_cover:
  assumes "0 \<le> q" "n * q \<le> h" "1 \<le> n"
  shows "concat (map (section_indices w) (spawn_loop h n q 0)) = [0..w * h - 1]"
proof (cases "0 \<le> w")
  case True
  with assms show ?thesis
    using spawn_loop_indices [of w q n h 0] by (simp add: mult.commute)
next
  case False
  have "0 \<le> n * q" using assms by simp
  with assms have "0 \<le> h" by linarith
  with False have "w * h \<le> 0" by (intro mult_nonpos_nonneg) auto
  moreover have "section_indices w sec = []" for sec
    using False by (simp add: section_indices_def row_indices_empty)
  ultimately show ?thesis by simp
qed

lemma spawn_loop_last:
  assumes "1 \<le> n"
  shows "snd (last (spawn_loop h n q 0)) = h"
proof -
  have ne: "spawn_loop h n q 0 \<noteq> []"
    using assms spawn_loop_length [of h n q 0] by auto
  have "last (spawn_loop h n q 0) = spawn_loop h n q 0 ! nat (n - 1)"
    using assms by (simp add: last_conv_nth [OF ne] spawn_loop_length nat_diff_distrib)
  also have "\<dots> = ((n - 1) * q, h)"
    using assms spawn_loop_nth [of "n - 1" n h q] by simp
  finally show ?thesis by simp
qed

lemma partition_cover:
  assumes "0 \<le> H" "1 \<le> W"
  shows "partition_rows H W = Inr (spawn_loop H W (H div W) 0)"
    and "length (spawn_loop H W (H div W) 0) = nat W"
    and "concat (map section_rows (spawn_loop H W (H div W) 0)) = [0..H - 1]"
    and "snd (last (spawn_loop H W (H div W) 0)) = H"
    and "0 \<le> r \<Longrightarrow> r < H \<Longrightarrow>
         \<exists>!t. t < length (spawn_loop H W (H div W) 0) \<and>
           fst (spawn_loop H W (H div W) 0 ! t) \<le> r \<and> r < snd (spawn_loop H W (H div W) 0 ! t)"
    and "concat (map (section_indices width) (spawn_loop H W (H div W) 0)) = [0..width * H - 1]"
    and "0 \<le> k \<Longrightarrow> k < width * H \<Longrightarrow>
         \<exists>!t. t < length (spawn_loop H W (H div W) 0) \<and>
           k \<in> set (section_indices width (spawn_loop H W (H div W) 0 ! t))"
proof -
  have q: "0 \<le> H div W" "W * (H div W) \<le> H"
    using div_bounds [OF assms] by simp_all
  show "partition_rows H W = Inr (spawn_loop H W (H div W) 0)"
    using assms by (rule partition_rows_ok)
  show "length (spawn_loop H W (H div W) 0) = nat W"
    by (simp add: spawn_loop_length)
  show "concat (map section_rows (spawn_loop H W (H div W) 0)) = [0..H - 1]"
    using spawn_loop_rows [OF q, of 0] assms by simp
  show "snd (last (spawn_loop H W (H div W) 0)) = H"
    using assms by (simp add: spawn_loop_last)
  show "\<exists>!t. t < length (spawn_loop H W (H div W) 0) \<and>
           fst (spawn_loop H W (H div W) 0 ! t) \<le> r \<and> r < snd (spawn_loop H W (H div W) 0 ! t)"
    if "0 \<le> r" "r < H"
    using row_owner [OF q assms(2) that] .
  show "concat (map (section_indices width) (spawn_loop H W (H div W) 0)) = [0..width * H - 1]"
    using sections_indices_cover [OF q assms(2)] .
  show "\<exists>!t. t < length (spawn_loop H W (H div W) 0) \<and>
           k \<in> set (section_indices width (spawn_loop H W (H div W) 0 ! t))"
    if "0 \<le> k" "k < width * H"
    using index_owner [OF q assms(2) that] .
qed

subsection \<open>Unit vectors\<close>

lemma unit_vector_up: "unit_vector (Vec3 0 1 0) = Vec3 0 1 0"
  by (simp add: unit_vector_def vdiv_def vlength_def length_squared_def smul_def)

lemma unit_vector_down: "unit_vector (Vec3 0 (- 1) 0) = Vec3 0 (- 1) 0"
  by (simp add: unit_vector_def vdiv_def vlength_def length_squared_def smul_def)

subsection \<open>The loops of the workers and of the emission\<close>

lemma length_sample_colors: "length (sample_colors cam rs world i j n g) = n"
  by (induction n arbitrary: g) (simp_all add: Let_def split: prod.splits)

lemma sample_loop_sum:
  "fst (sample_loop cam rs world i j s acc g) =
     foldl (+) acc (sample_colors cam rs world i j (nat (samples_per_pixel cam - s)) g)"
proof (induction cam rs world i j s acc g rule: sample_loop.induct)
  case (1 cam rs world i j s acc g)
  show ?case
  proof (cases "s < samples_per_pixel cam")
    case True
    then have n: "nat (samples_per_pixel cam - s) = Suc (nat (samples_per_pixel cam - (s + 1)))"
      by simp
    obtain r g1 where r: "get_ray cam rs i j g = (r, g1)" by (cases "get_ray cam rs i j g")
    obtain c g2 where c: "ray_color r (max_depth cam) world g1 = (c, g2)"
      by (cases "ray_color r (max_depth cam) world g1")
    from 1 [OF True r [symmetric] refl c [symmetric] refl]
    have "fst (sample_loop cam rs world i j (s + 1) (acc + c) g2) =
      foldl (+) (acc + c) (sample_colors cam rs world i j (nat (samples_per_pixel cam - (s + 1))) g2)" .
    then show ?thesis using True r c
      by (simp add: sample_loop.simps [of cam rs world i j s acc g] n del: nat_diff_distrib)
  next
    case False
    then show ?thesis by (simp add: sample_loop.simps [of cam rs world i j s acc g])
  qed
qed

lemma sample_loop_pixel_sum:
  "fst (sample_loop cam rs world i j 0 (Vec3 0 0 0) g) = pixel_sum cam rs world i j g"
  by (simp add: sample_loop_sum pixel_sum_def)

lemma col_loop_spec:
  assumes "0 \<le> i" "0 \<le> j" "(j + 1) * image_width cam \<le> int (length fb)"
  shows "\<exists>fb' g'. col_loop cam rs world j i fb g = Inr (fb', g') \<and> length fb' = length fb
    \<and> (\<forall>k. int k < j * image_width cam + i \<or> (j + 1) * image_width cam \<le> int k
          \<longrightarrow> fb' ! k = fb ! k)
    \<and> (\<forall>i'. i \<le> i' \<and> i' < image_width cam \<longrightarrow> pixel_done cam rs world fb' i' j)"
  using assms
proof (induction cam rs world j i fb g rule: col_loop.induct)
  case (1 cam rs world j i fb g)
  let ?w = "image_width cam"
  show ?case
  proof (cases "i < ?w")
    case False
    then show ?thesis by (auto simp: col_loop.simps [of cam rs world j i fb g])
  next
    case True
    obtain pc g1 where pc: "sample_loop cam rs world i j 0 (Vec3 0 0 0) g = (pc, g1)"
      by (cases "sample_loop cam rs world i j 0 (Vec3 0 0 0) g")
    then have pcv: "pc = pixel_sum cam rs world i j g"
      using sample_loop_pixel_sum [of cam rs world i j g] by simp
    let ?idx = "j * ?w + i"
    have jw: "0 \<le> j * ?w" using True "1.prems" by simp
    then have lo: "0 \<le> ?idx" using "1.prems" by simp
    have hi: "?idx < int (length fb)" using True "1.prems" by (simp add: algebra_simps)
    let ?fb1 = "fb[nat ?idx := pc]"
    have st: "fb_store fb ?idx pc = Inr ?fb1" using lo hi by (simp add: fb_store_def)
    have "\<exists>fb' g'. col_loop cam rs world j (i + 1) ?fb1 g1 = Inr (fb', g')
        \<and> length fb' = length ?fb1
        \<and> (\<forall>k. int k < j * ?w + (i + 1) \<or> (j + 1) * ?w \<le> int k \<longrightarrow> fb' ! k = ?fb1 ! k)
        \<and> (\<forall>i'. i + 1 \<le> i' \<and> i' < ?w \<longrightarrow> pixel_done cam rs world fb' i' j)"
      using "1.prems" by (intro "1.IH" [OF True pc [symmetric] refl refl st]) simp_all
    then obtain fb' g' where rec: "col_loop cam rs world j (i + 1) ?fb1 g1 = Inr (fb', g')"
      and len0: "length fb' = length ?fb1"
      and same0: "\<forall>k. int k < j * ?w + (i + 1) \<or> (j + 1) * ?w \<le> int k \<longrightarrow> fb' ! k = ?fb1 ! k"
      and dn0: "\<forall>i'. i + 1 \<le> i' \<and> i' < ?w \<longrightarrow> pixel_done cam rs world fb' i' j"
      by blast
    from len0 have len: "length fb' = length fb" by simp
    from same0 have same: "\<And>k. int k < j * ?w + (i + 1) \<or> (j + 1) * ?w \<le> int k
        \<Longrightarrow> fb' ! k = ?fb1 ! k" by blast
    from dn0 have dn: "\<And>i'. i + 1 \<le> i' \<Longrightarrow> i' < ?w \<Longrightarrow> pixel_done cam rs world fb' i' j"
      by blast
    have eq: "col_loop cam rs world j i fb g = Inr (fb', g')"
      using True pc st rec by (simp add: col_loop.simps [of cam rs world j i fb g])
    have same': "fb' ! k = fb ! k" if "int k < ?idx \<or> (j + 1) * ?w \<le> int k" for k
    proof -
      have "int (nat ?idx) = ?idx" using lo by simp
      moreover have "?idx < (j + 1) * ?w" using True by (simp add: algebra_simps)
      ultimately have "int k \<noteq> int (nat ?idx)" using that by linarith
      then have "k \<noteq> nat ?idx" by blast
      moreover from that have "fb' ! k = ?fb1 ! k" by (intro same) auto
      ultimately show ?thesis by simp
    qed
    have here: "pixel_done cam rs world fb' i j"
    proof -
      have "fb' ! nat ?idx = ?fb1 ! nat ?idx" using lo by (intro same) simp
      also have "\<dots> = pc" using lo hi by simp
      finally show ?thesis unfolding pixel_done_def pcv by blast
    qed
    have dn': "pixel_done cam rs world fb' i' j" if "i \<le> i'" "i' < ?w" for i'
      using that here dn [of i'] by (cases "i' = i") auto
    from eq len same' dn' show ?thesis by blast
  qed
qed

lemma row_loop_spec:
  assumes "0 \<le> j" "j \<le> e" "0 \<le> image_width cam" "e * image_width cam \<le> int (length fb)"
  shows "\<exists>fb' g'. row_loop cam rs world e j fb g = Inr (fb', g') \<and> length fb' = length fb
    \<and> (\<forall>k. int k < j * image_width cam \<or> e * image_width cam \<le> int k \<longrightarrow> fb' ! k = fb ! k)
    \<and> (\<forall>j' i'. j \<le> j' \<and> j' < e \<and> 0 \<le> i' \<and> i' < image_width cam
          \<longrightarrow> pixel_done cam rs world fb' i' j')"
  using assms
proof (induction cam rs world e j fb g rule: row_loop.induct)
  case (1 cam rs world e j fb g)
  let ?w = "image_width cam"
  show ?case
  proof (cases "j < e")
    case False
    then show ?thesis by (auto simp: row_loop.simps [of cam rs world e j fb g])
  next
    case True
    have je: "(j + 1) * ?w \<le> e * ?w" using True "1.prems" by (intro mult_right_mono) auto
    with "1.prems" have fit: "(j + 1) * ?w \<le> int (length fb)" by simp
    have jj: "j * ?w \<le> (j + 1) * ?w" using "1.prems" by (intro mult_right_mono) auto
    have "\<exists>fb' g'. col_loop cam rs world j 0 fb g = Inr (fb', g') \<and> length fb' = length fb
        \<and> (\<forall>k. int k < j * ?w + 0 \<or> (j + 1) * ?w \<le> int k \<longrightarrow> fb' ! k = fb ! k)
        \<and> (\<forall>i'. 0 \<le> i' \<and> i' < ?w \<longrightarrow> pixel_done cam rs world fb' i' j)"
      using "1.prems" fit by (intro col_loop_spec) simp_all
    then obtain fb1 g1 where col: "col_loop cam rs world j 0 fb g = Inr (fb1, g1)"
      and len1: "length fb1 = length fb"
      and same10: "\<forall>k. int k < j * ?w + 0 \<or> (j + 1) * ?w \<le> int k \<longrightarrow> fb1 ! k = fb ! k"
      and dn10: "\<forall>i'. 0 \<le> i' \<and> i' < ?w \<longrightarrow> pixel_done cam rs world fb1 i' j"
      by blast
    from same10 have same1: "\<And>k. int k < j * ?w \<or> (j + 1) * ?w \<le> int k \<Longrightarrow> fb1 ! k = fb ! k"
      by auto
    from dn10 have dn1: "\<And>i'. 0 \<le> i' \<Longrightarrow> i' < ?w \<Longrightarrow> pixel_done cam rs world fb1 i' j"
      by blast
    have "\<exists>fb' g'. row_loop cam rs world e (j + 1) fb1 g1 = Inr (fb', g')
        \<and> length fb' = length fb1
        \<and> (\<forall>k. int k < (j + 1) * ?w \<or> e * ?w \<le> int k \<longrightarrow> fb' ! k = fb1 ! k)
        \<and> (\<forall>j' i'. j + 1 \<le> j' \<and> j' < e \<and> 0 \<le> i' \<and> i' < ?w
              \<longrightarrow> pixel_done cam rs world fb' i' j')"
      using "1.prems" True len1 by (intro "1.IH" [OF True col refl]) simp_all
    then obtain fb' g' where rec: "row_loop cam rs world e (j + 1) fb1 g1 = Inr (fb', g')"
      and len: "length fb' = length fb1"
      and same0: "\<forall>k. int k < (j + 1) * ?w \<or> e * ?w \<le> int k \<longrightarrow> fb' ! k = fb1 ! k"
      and dn0: "\<forall>j' i'. j + 1 \<le> j' \<and> j' < e \<and> 0 \<le> i' \<and> i' < ?w
          \<longrightarrow> pixel_done cam rs world fb' i' j'"
      by blast
    from same0 have same: "\<And>k. int k < (j + 1) * ?w \<or> e * ?w \<le> int k \<Longrightarrow> fb' ! k = fb1 ! k"
      by blast
    from dn0 have dn: "\<And>j' i'. j + 1 \<le> j' \<Longrightarrow> j' < e \<Longrightarrow> 0 \<le> i' \<Longrightarrow> i' < ?w
          \<Longrightarrow> pixel_done cam rs world fb' i' j'"
      by blast
    have eq: "row_loop cam rs world e j fb g = Inr (fb', g')"
      using True col rec by (simp add: row_loop.simps [of cam rs world e j fb g])
    have same': "fb' ! k = fb ! k" if "int k < j * ?w \<or> e * ?w \<le> int k" for k
    proof -
      from that jj je have a: "int k < (j + 1) * ?w \<or> e * ?w \<le> int k"
        and b: "int k < j * ?w \<or> (j + 1) * ?w \<le> int k" by auto
      show ?thesis using same [OF a] same1 [OF b] by simp
    qed
    have row: "pixel_done cam rs world fb' i' j" if "0 \<le> i'" "i' < ?w" for i'
    proof -
      let ?k = "nat (j * ?w + i')"
      have "0 \<le> j * ?w" using "1.prems" by simp
      with that have "int ?k < (j + 1) * ?w" by (simp add: algebra_simps)
      then have "fb' ! ?k = fb1 ! ?k" by (intro same) simp
      with dn1 [OF that] show ?thesis by (simp add: pixel_done_def)
    qed
    have dn': "pixel_done cam rs world fb' i' j'"
      if "j \<le> j'" "j' < e" "0 \<le> i'" "i' < ?w" for j' i'
      using that row [of i'] dn [of j' i'] by (cases "j' = j") auto
    from len len1 have len': "length fb' = length fb" by simp
    from eq len' same' dn' show ?thesis by blast
  qed
qed

lemma run_sections_spec:
  assumes "0 \<le> q" "n * q \<le> H" "0 \<le> t" "0 \<le> image_width cam"
    "H * image_width cam \<le> int (length fb)"
  shows "\<exists>fb' rem'. run_sections cam rs world seeds (spawn_loop H n q t) m fb rem = Inr (fb', rem')
    \<and> length fb' = length fb
    \<and> (\<forall>k. int k < t * q * image_width cam \<longrightarrow> fb' ! k = fb ! k)
    \<and> (t < n \<longrightarrow> (\<forall>j' i'. t * q \<le> j' \<and> j' < H \<and> 0 \<le> i' \<and> i' < image_width cam
          \<longrightarrow> pixel_done cam rs world fb' i' j'))"
  using assms
proof (induction H n q t arbitrary: m fb rem rule: spawn_loop.induct)
  case (1 H n q t)
  let ?w = "image_width cam"
  show ?case
  proof (cases "t < n")
    case False
    then show ?thesis by (simp add: spawn_loop.simps [of H n q t])
  next
    case True
    let ?s = "t * q"
    let ?e = "if t = n - 1 then H else ?s + q"
    have tq: "(t + 1) * q \<le> n * q" using True "1.prems" by (intro mult_right_mono) auto
    have s0: "0 \<le> ?s" using "1.prems" by simp
    have se: "?s \<le> ?e" using tq "1.prems" by (auto simp: algebra_simps)
    have eH: "?e \<le> H" using tq "1.prems" by (auto simp: algebra_simps)
    have "?e * ?w \<le> H * ?w" using eH "1.prems" by (intro mult_right_mono) auto
    with "1.prems" have fit: "?e * ?w \<le> int (length fb)" by simp
    have "\<exists>fb' g'. row_loop cam rs world ?e ?s fb (seeds m) = Inr (fb', g') \<and> length fb' = length fb
        \<and> (\<forall>k. int k < ?s * ?w \<or> ?e * ?w \<le> int k \<longrightarrow> fb' ! k = fb ! k)
        \<and> (\<forall>j' i'. ?s \<le> j' \<and> j' < ?e \<and> 0 \<le> i' \<and> i' < ?w \<longrightarrow> pixel_done cam rs world fb' i' j')"
      using s0 se "1.prems" fit by (intro row_loop_spec) simp_all
    then obtain fb1 g1 where row: "row_loop cam rs world ?e ?s fb (seeds m) = Inr (fb1, g1)"
      and len1: "length fb1 = length fb"
      and same10: "\<forall>k. int k < ?s * ?w \<or> ?e * ?w \<le> int k \<longrightarrow> fb1 ! k = fb ! k"
      and dn10: "\<forall>j' i'. ?s \<le> j' \<and> j' < ?e \<and> 0 \<le> i' \<and> i' < ?w
          \<longrightarrow> pixel_done cam rs world fb1 i' j'"
      by blast
    from same10 have same1: "\<And>k. int k < ?s * ?w \<Longrightarrow> fb1 ! k = fb ! k" by blast
    from dn10 have dn1: "\<And>j' i'. ?s \<le> j' \<Longrightarrow> j' < ?e \<Longrightarrow> 0 \<le> i' \<Longrightarrow> i' < ?w
        \<Longrightarrow> pixel_done cam rs world fb1 i' j'" by blast
    have sec: "render_section cam rs world fb ?s ?e rem (seeds m) = Inr (fb1, rem - 1)"
      using row by (simp add: render_section_def)
    have unf: "run_sections cam rs world seeds (spawn_loop H n q t) m fb rem =
        run_sections cam rs world seeds (spawn_loop H n q (t + 1)) (Suc m) fb1 (rem - 1)"
      using True sec by (simp add: spawn_loop.simps [of H n q t] Let_def)
    show ?thesis
    proof (cases "t = n - 1")
      case True
      then have "spawn_loop H n q (t + 1) = []" by (simp add: spawn_loop.simps [of H n q n])
      with unf have "run_sections cam rs world seeds (spawn_loop H n q t) m fb rem
          = Inr (fb1, rem - 1)" by simp
      moreover have "pixel_done cam rs world fb1 i' j'"
        if "?s \<le> j'" "j' < H" "0 \<le> i'" "i' < ?w" for j' i'
        using that dn1 [of j' i'] True by simp
      ultimately show ?thesis using len1 same1 by blast
    next
      case False
      with True have lt: "t + 1 < n" by simp
      have "\<exists>fb' rem'. run_sections cam rs world seeds (spawn_loop H n q (t + 1)) (Suc m) fb1 (rem - 1)
            = Inr (fb', rem')
          \<and> length fb' = length fb1
          \<and> (\<forall>k. int k < (t + 1) * q * ?w \<longrightarrow> fb' ! k = fb1 ! k)
          \<and> (t + 1 < n \<longrightarrow> (\<forall>j' i'. (t + 1) * q \<le> j' \<and> j' < H \<and> 0 \<le> i' \<and> i' < ?w
                \<longrightarrow> pixel_done cam rs world fb' i' j'))"
        using "1.prems" len1 by (intro "1.IH" [OF True refl refl]) simp_all
      then obtain fb' rem' where
        rec: "run_sections cam rs world seeds (spawn_loop H n q (t + 1)) (Suc m) fb1 (rem - 1)
            = Inr (fb', rem')"
        and len: "length fb' = length fb1"
        and same0: "\<forall>k. int k < (t + 1) * q * ?w \<longrightarrow> fb' ! k = fb1 ! k"
        and dn0: "\<forall>j' i'. (t + 1) * q \<le> j' \<and> j' < H \<and> 0 \<le> i' \<and> i' < ?w
                \<longrightarrow> pixel_done cam rs world fb' i' j'"
        using lt by blast
      from same0 have same: "\<And>k. int k < (t + 1) * q * ?w \<Longrightarrow> fb' ! k = fb1 ! k" by blast
      from dn0 have dn: "\<And>j' i'. (t + 1) * q \<le> j' \<Longrightarrow> j' < H \<Longrightarrow> 0 \<le> i' \<Longrightarrow> i' < ?w
          \<Longrightarrow> pixel_done cam rs world fb' i' j'" by blast
      have e: "?e = (t + 1) * q" using False by (simp add: algebra_simps)
      have mono: "?s * ?w \<le> (t + 1) * q * ?w"
        using "1.prems" by (intro mult_right_mono) (auto simp: algebra_simps)
      have same': "fb' ! k = fb ! k" if "int k < ?s * ?w" for k
        using that mono same [of k] same1 [of k] by simp
      have dn': "pixel_done cam rs world fb' i' j'"
        if j: "?s \<le> j'" "j' < H" and i: "0 \<le> i'" "i' < ?w" for j' i'
      proof (cases "j' < (t + 1) * q")
        case False
        then show ?thesis using dn [of j' i'] j i by simp
      next
        case True
        have d1: "pixel_done cam rs world fb1 i' j'" using dn1 [of j' i'] j i True e by simp
        have "0 \<le> j'" using s0 j by simp
        then have k0: "0 \<le> j' * ?w + i'" using i "1.prems" by simp
        have "(j' + 1) * ?w \<le> (t + 1) * q * ?w"
          using True "1.prems" by (intro mult_right_mono) auto
        with i have "j' * ?w + i' < (t + 1) * q * ?w" by (simp add: algebra_simps)
        with k0 have "fb' ! nat (j' * ?w + i') = fb1 ! nat (j' * ?w + i')"
          by (intro same) simp
        with d1 show ?thesis by (simp add: pixel_done_def)
      qed
      from len len1 have len': "length fb' = length fb" by simp
      from unf rec have "run_sections cam rs world seeds (spawn_loop H n q t) m fb rem
          = Inr (fb', rem')" by simp
      with len' same' dn' show ?thesis by blast
    qed
  qed
qed

lemma emit_cols_spec:
  assumes "0 \<le> i" "0 \<le> j" "(j + 1) * image_width cam \<le> int (length fb)"
  shows "emit_cols cam fb j i out =
    Inr (out @ map (\<lambda>k. smul (pixel_samples_scale cam) (fb ! nat k))
                   [j * image_width cam + i..(j + 1) * image_width cam - 1])"
  using assms
proof (induction cam fb j i out rule: emit_cols.induct)
  case (1 cam fb j i out)
  let ?w = "image_width cam"
  let ?f = "\<lambda>k. smul (pixel_samples_scale cam) (fb ! nat k)"
  show ?case
  proof (cases "i < ?w")
    case False
    then have "[j * ?w + i..(j + 1) * ?w - 1] = []" by (simp add: algebra_simps)
    with False show ?thesis by (simp add: emit_cols.simps [of cam fb j i out])
  next
    case True
    let ?idx = "j * ?w + i"
    have "0 \<le> j * ?w" using True "1.prems" by simp
    then have lo: "0 \<le> ?idx" using "1.prems" by simp
    have hi: "?idx < int (length fb)" using True "1.prems" by (simp add: algebra_simps)
    have ld: "fb_load fb ?idx = Inr (fb ! nat ?idx)" using lo hi by (simp add: fb_load_def)
    have "emit_cols cam fb j (i + 1) (out @ [?f ?idx]) =
        Inr ((out @ [?f ?idx]) @ map ?f [j * ?w + (i + 1)..(j + 1) * ?w - 1])"
      using "1.prems" by (intro "1.IH" [OF True refl ld]) simp_all
    moreover have "[?idx..(j + 1) * ?w - 1] = ?idx # [j * ?w + (i + 1)..(j + 1) * ?w - 1]"
      using True by (subst upto_rec1) (simp_all add: algebra_simps)
    ultimately show ?thesis using True ld
      by (simp add: emit_cols.simps [of cam fb j i out] Let_def)
  qed
qed

lemma emit_rows_spec:
  assumes "0 \<le> j" "j \<le> image_height cam" "0 \<le> image_width cam"
    "image_height cam * image_width cam \<le> int (length fb)"
  shows "emit_rows cam fb j out =
    Inr (out @ map (\<lambda>k. smul (pixel_samples_scale cam) (fb ! nat k))
                   [j * image_width cam..image_height cam * image_width cam - 1])"
  using assms
proof (induction cam fb j out rule: emit_rows.induct)
  case (1 cam fb j out)
  let ?w = "image_width cam"
  let ?h = "image_height cam"
  let ?f = "\<lambda>k. smul (pixel_samples_scale cam) (fb ! nat k)"
  show ?case
  proof (cases "j < ?h")
    case False
    with "1.prems" have "j = ?h" by simp
    then have "[j * ?w..?h * ?w - 1] = []" by simp
    with False show ?thesis by (simp add: emit_rows.simps [of cam fb j out])
  next
    case True
    have je: "(j + 1) * ?w \<le> ?h * ?w" using True "1.prems" by (intro mult_right_mono) auto
    with "1.prems" have fit: "(j + 1) * ?w \<le> int (length fb)" by simp
    have jj: "j * ?w \<le> (j + 1) * ?w" using "1.prems" by (intro mult_right_mono) auto
    have cols: "emit_cols cam fb j 0 out = Inr (out @ map ?f [j * ?w..(j + 1) * ?w - 1])"
      using emit_cols_spec [of 0 j cam fb out] "1.prems" fit by simp
    have "emit_rows cam fb (j + 1) (out @ map ?f [j * ?w..(j + 1) * ?w - 1]) =
        Inr ((out @ map ?f [j * ?w..(j + 1) * ?w - 1]) @ map ?f [(j + 1) * ?w..?h * ?w - 1])"
      using "1.prems" True by (intro "1.IH" [OF True cols]) simp_all
    moreover have "[j * ?w..(j + 1) * ?w - 1] @ [(j + 1) * ?w..?h * ?w - 1] = [j * ?w..?h * ?w - 1]"
      using jj je by (intro upto_append) auto
    then have "map ?f [j * ?w..(j + 1) * ?w - 1] @ map ?f [(j + 1) * ?w..?h * ?w - 1]
        = map ?f [j * ?w..?h * ?w - 1]"
      by (simp only: map_append [symmetric])
    ultimately show ?thesis using True cols
      by (simp add: emit_rows.simps [of cam fb j out])
  qed
qed

lemma initialize_fields:
  assumes "initialize cam = Inr cam1"
  shows "image_width cam1 = image_width cam" "samples_per_pixel cam1 = samples_per_pixel cam"
    "1 \<le> image_height cam1" "max_depth cam1 = max_depth cam"
    "pixel_samples_scale cam1 = 1 / real_of_int (samples_per_pixel cam)"
    "defocus_angle cam1 = defocus_angle cam" "center cam1 = lookfrom cam"
  using assms
  by (auto simp: initialize_def Let_def split: if_splits sum.splits)

lemma get_ray_counter:
  "get_ray (cam\<lparr>sections_remaining := n\<rparr>) rs i j g = get_ray cam rs i j g"
  by (simp add: get_ray_def defocus_disk_sample_def cong: if_cong)

lemma sample_colors_counter:
  "sample_colors (cam\<lparr>sections_remaining := n\<rparr>) rs world i j k g
     = sample_colors cam rs world i j k g"
  by (induction k arbitrary: g) (simp_all add: get_ray_counter)

lemma pixel_sum_counter:
  "pixel_sum (cam\<lparr>sections_remaining := n\<rparr>) rs world i j g = pixel_sum cam rs world i j g"
  by (simp add: pixel_sum_def sample_colors_counter)

lemma render_spec:
  assumes init: "initialize cam = Inr cam1"
    and w0: "0 \<le> image_width cam"
    and fits: "image_width cam * image_height cam1 < 2 ^ 31"
    and W: "1 \<le> sint hw"
  shows "\<exists>fb rem. render cam rs world hw seeds =
        Inr (cam1\<lparr>sections_remaining := rem\<rparr>, fb,
             map (\<lambda>k. smul (pixel_samples_scale cam1) (fb ! nat k))
                 [0..image_width cam * image_height cam1 - 1])
    \<and> int (length fb) = image_width cam * image_height cam1
    \<and> (\<forall>i j. 0 \<le> i \<and> i < image_width cam \<and> 0 \<le> j \<and> j < image_height cam1 \<longrightarrow>
          (\<exists>g. fb ! nat (j * image_width cam + i) = pixel_sum cam1 rs world i j g))"
proof -
  let ?w = "image_width cam"
  let ?h = "image_height cam1"
  let ?W = "sint hw"
  note f = initialize_fields [OF init]
  have h0: "0 \<le> ?h" using f(3) by simp
  have size: "0 \<le> ?w * ?h" using w0 h0 by simp
  then have "- (2 ^ 31) \<le> ?w * ?h" by (rule order_trans [rotated]) simp
  with fits have "int_fits (?w * ?h)" by (simp add: int_fits_def)
  let ?fb0 = "replicate (nat (?w * ?h)) (Vec3 0 0 0)"
  have alloc: "allocate_framebuffer (image_width cam1) (image_height cam1) = Inr ?fb0"
    using \<open>int_fits (?w * ?h)\<close> size by (simp add: allocate_framebuffer_def f(1) Let_def)
  have part: "partition_rows ?h ?W = Inr (spawn_loop ?h ?W (?h div ?W) 0)"
    using h0 W by (rule partition_rows_ok)
  let ?cam2 = "cam1\<lparr>sections_remaining := ?W\<rparr>"
  have q: "0 \<le> ?h div ?W" "?W * (?h div ?W) \<le> ?h" using div_bounds [OF h0 W] by simp_all
  have len0: "?h * image_width ?cam2 \<le> int (length ?fb0)"
    using size by (simp add: f(1) mult.commute)
  have "\<exists>fb' rem'. run_sections ?cam2 rs world seeds (spawn_loop ?h ?W (?h div ?W) 0) 0 ?fb0 ?W
        = Inr (fb', rem')
      \<and> length fb' = length ?fb0
      \<and> (\<forall>k. int k < 0 * (?h div ?W) * image_width ?cam2 \<longrightarrow> fb' ! k = ?fb0 ! k)
      \<and> (0 < ?W \<longrightarrow> (\<forall>j' i'. 0 * (?h div ?W) \<le> j' \<and> j' < ?h \<and> 0 \<le> i' \<and> i' < image_width ?cam2
            \<longrightarrow> pixel_done ?cam2 rs world fb' i' j'))"
    using q w0 len0 by (intro run_sections_spec) (simp_all add: f(1))
  then obtain fb rem where
    run: "run_sections ?cam2 rs world seeds (spawn_loop ?h ?W (?h div ?W) 0) 0 ?fb0 ?W = Inr (fb, rem)"
    and len: "length fb = length ?fb0"
    and dn0: "\<forall>j' i'. 0 * (?h div ?W) \<le> j' \<and> j' < ?h \<and> 0 \<le> i' \<and> i' < image_width ?cam2
            \<longrightarrow> pixel_done ?cam2 rs world fb i' j'"
    using W by auto
  have dn: "\<exists>g. fb ! nat (j * ?w + i) = pixel_sum cam1 rs world i j g"
    if "0 \<le> i" "i < ?w" "0 \<le> j" "j < ?h" for i j
  proof -
    from dn0 that have "pixel_done ?cam2 rs world fb i j" by (simp add: f(1))
    then show ?thesis by (simp add: pixel_done_def pixel_sum_counter f(1))
  qed
  let ?cam3 = "?cam2\<lparr>sections_remaining := rem\<rparr>"
  have flen: "int (length fb) = ?w * ?h" using len size by simp
  have "emit_rows ?cam3 fb 0 [] =
      Inr ([] @ map (\<lambda>k. smul (pixel_samples_scale ?cam3) (fb ! nat k))
                    [0 * image_width ?cam3..image_height ?cam3 * image_width ?cam3 - 1])"
    using h0 w0 flen by (intro emit_rows_spec) (simp_all add: f(1) mult.commute)
  then have emit: "emit_rows ?cam3 fb 0 [] =
      Inr (map (\<lambda>k. smul (pixel_samples_scale cam1) (fb ! nat k)) [0..?w * ?h - 1])"
    by (simp add: f(1) mult.commute)
  have "render cam rs world hw seeds = Inr (?cam3, fb,
      map (\<lambda>k. smul (pixel_samples_scale cam1) (fb ! nat k)) [0..?w * ?h - 1])"
    using init alloc part run emit by (simp add: render_def Let_def)
  then have "render cam rs world hw seeds = Inr (cam1\<lparr>sections_remaining := rem\<rparr>, fb,
      map (\<lambda>k. smul (pixel_samples_scale cam1) (fb ! nat k)) [0..?w * ?h - 1])"
    by simp
  with flen dn show ?thesis by blast
qed

lemma nth_map_upto:
  assumes "0 \<le> k" "k < n"
  shows "map f [0..n - 1] ! nat k = f k"
proof -
  have "nat k < length [0..n - 1]" using assms by simp
  then have "map f [0..n - 1] ! nat k = f ([0..n - 1] ! nat k)" by (rule nth_map)
  also have "[0..n - 1] ! nat k = 0 + int (nat k)" using assms by (intro nth_upto) simp
  finally show ?thesis using assms by simp
qed


subsection \<open>The workers of a partition and concrete pixel sums\<close>






lemma get_ray_origin:
  "defocus_angle cam \<le> 0 \<Longrightarrow> orig (fst (get_ray cam rs i j g)) = center cam"
  by (simp add: get_ray_def Let_def split: prod.splits)

lemma ray_color_bounce:
  assumes "orig r = Vec3 (- 1) 0 0"
  shows "ray_color r 2 test_world g = (Vec3 (1 / 4) (7 / 20) (1 / 2), Suc g)"
proof -
  have sky: "ray_color \<lparr>orig = Vec3 1 0 0, dir = Vec3 0 1 0\<rparr> 1 test_world (Suc g)
      = (Vec3 (1 / 2) (7 / 10) 1, Suc g)"
    by (simp add: ray_color.simps [of _ 1] test_world_def unit_vector_up smul_def plus_vec3_def)
  show ?thesis using assms sky
    by (simp add: ray_color.simps [of r 2] test_world_def times_vec3_def)
qed

lemma pixel_sum_bounce:
  assumes "defocus_angle cam \<le> 0" "center cam = Vec3 (- 1) 0 0" "max_depth cam = 2"
    "samples_per_pixel cam = 2"
  shows "pixel_sum cam test_source test_world i j g = Vec3 (1 / 2) (7 / 10) 1"
proof -
  have step: "sample_colors cam test_source test_world i j (Suc n) g' =
      Vec3 (1 / 4) (7 / 20) (1 / 2) #
      sample_colors cam test_source test_world i j n
        (Suc (snd (get_ray cam test_source i j g')))" for n g'
  proof -
    obtain r g1 where r: "get_ray cam test_source i j g' = (r, g1)"
      by (cases "get_ray cam test_source i j g'")
    with get_ray_origin [OF assms(1), of test_source i j g'] assms(2)
    have "orig r = Vec3 (- 1) 0 0" by simp
    then show ?thesis using r by (simp add: assms(3) ray_color_bounce)
  qed
  have "sample_colors cam test_source test_world i j (Suc (Suc 0)) g =
      [Vec3 (1 / 4) (7 / 20) (1 / 2), Vec3 (1 / 4) (7 / 20) (1 / 2)]"
    by (simp only: step sample_colors.simps(1))
  then show ?thesis
    by (simp add: pixel_sum_def assms(4) numeral_2_eq_2 plus_vec3_def del: sample_colors.simps)
qed

subsection \<open>Dependence on the configuration\<close>

lemma initialize_same_config:
  assumes "same_config c1 c2"
  shows "map_sum id (\<lambda>c. c\<lparr>sections_remaining := n\<rparr>) (initialize c1)
       = map_sum id (\<lambda>c. c\<lparr>sections_remaining := n\<rparr>) (initialize c2)"
proof (cases c1)
  case c1: (fields a1 a2 a3 a4 a5 a6 a7 a8 a9 a10 a11 a12 a13 a14 a15 a16 a17 a18 a19 a20 a21 a22)
  show ?thesis
  proof (cases c2)
    case c2: (fields b1 b2 b3 b4 b5 b6 b7 b8 b9 b10 b11 b12 b13 b14 b15 b16 b17 b18 b19 b20 b21 b22)
    from assms show ?thesis
      unfolding c1 c2 by (simp add: same_config_def initialize_def Let_def split: sum.splits)
  qed
qed

lemma initialize_keeps_config: "initialize cam = Inr cam1 \<Longrightarrow> same_config cam cam1"
  by (auto simp: initialize_def same_config_def Let_def split: if_splits sum.splits)

lemma render_via_counter:
  "render cam rs world hw seeds =
     (case map_sum id (\<lambda>c. c\<lparr>sections_remaining := sint hw\<rparr>) (initialize cam) of
        Inl e \<Rightarrow> Inl e
      | Inr cam2 \<Rightarrow>
     (case allocate_framebuffer (image_width cam2) (image_height cam2) of
        Inl e \<Rightarrow> Inl e
      | Inr framebuffer \<Rightarrow>
     (case partition_rows (image_height cam2) (sint hw) of
        Inl e \<Rightarrow> Inl e
      | Inr sections \<Rightarrow>
     (case run_sections cam2 rs world seeds sections 0 framebuffer (sint hw) of
        Inl e \<Rightarrow> Inl e
      | Inr (framebuffer', remaining) \<Rightarrow>
     (case emit_rows (cam2\<lparr>sections_remaining := remaining\<rparr>) framebuffer' 0 [] of
        Inl e \<Rightarrow> Inl e
      | Inr out \<Rightarrow> Inr (cam2\<lparr>sections_remaining := remaining\<rparr>, framebuffer', out))))))"
  by (simp add: render_def Let_def split: sum.splits prod.splits)

lemma render_same_config:
  "same_config c1 c2 \<Longrightarrow> render c1 rs world hw seeds = render c2 rs world hw seeds"
  by (simp only: render_via_counter initialize_same_config [of c1 c2 "sint hw"])

lemma render_keeps_config:
  assumes "render cam rs world hw seeds = Inr (cam', fb, out)"
  shows "same_config cam cam'"
proof -
  from assms obtain cam1 rem where "initialize cam = Inr cam1"
    and "cam' = cam1\<lparr>sections_remaining := sint hw, sections_remaining := rem\<rparr>"
    by (auto simp: render_def Let_def split: sum.splits prod.splits)
  then show ?thesis using initialize_keeps_config [of cam cam1] by (simp add: same_config_def)
qed

lemma render_test_config_returns:
  "\<exists>c' fb out. render test_config test_source empty_world 2 (\<lambda>t. 0) = Inr (c', fb, out)"
proof -
  have "\<exists>cam1. initialize test_config = Inr cam1 \<and> image_height cam1 = 2"
    by (simp add: initialize_def test_config_def default_camera_def double_to_int_def
        int_fits_def Let_def double_div_2_1)
  then obtain cam1 where init: "initialize test_config = Inr cam1" and h: "image_height cam1 = 2"
    by blast
  have c: "image_width test_config = 2"
    by (simp add: test_config_def default_camera_def)
  have hyp: "0 \<le> image_width test_config" "image_width test_config * image_height cam1 < 2 ^ 31"
    "1 \<le> sint (2 :: 32 word)"
    by (simp_all add: c h)
  from render_spec [OF init hyp, of test_source empty_world "\<lambda>t. 0"] show ?thesis by blast
qed

subsection \<open>A render without workers\<close>

lemma map_upto_replicate:
  assumes "0 \<le> n"
  shows "map (\<lambda>k. f (replicate (nat n) a ! nat k)) [0..n - 1] = replicate (nat n) (f a)"
proof (rule nth_equalityI)
  show "length (map (\<lambda>k. f (replicate (nat n) a ! nat k)) [0..n - 1])
      = length (replicate (nat n) (f a))"
    using assms by simp
next
  fix i assume "i < length (map (\<lambda>k. f (replicate (nat n) a ! nat k)) [0..n - 1])"
  then have i: "int i < n" using assms by simp
  then have "map (\<lambda>k. f (replicate (nat n) a ! nat k)) [0..n - 1] ! nat (int i)
      = f (replicate (nat n) a ! nat (int i))"
    by (intro nth_map_upto) simp_all
  with i show "map (\<lambda>k. f (replicate (nat n) a ! nat k)) [0..n - 1] ! i
      = replicate (nat n) (f a) ! i"
    by simp
qed

lemma render_no_workers:
  assumes init: "initialize cam = Inr cam1"
    and w0: "0 \<le> image_width cam"
    and fits: "image_width cam * image_height cam1 < 2 ^ 31"
    and W: "sint hw < 0"
  shows "map_sum id snd (render cam rs world hw seeds) =
      Inr (replicate (nat (image_width cam * image_height cam1)) (Vec3 0 0 0),
           replicate (nat (image_width cam * image_height cam1))
             (smul (pixel_samples_scale cam1) (Vec3 0 0 0)))"
proof -
  let ?w = "image_width cam"
  let ?h = "image_height cam1"
  let ?W = "sint hw"
  note f = initialize_fields [OF init]
  have h0: "0 \<le> ?h" using f(3) by simp
  have size: "0 \<le> ?w * ?h" using w0 h0 by simp
  then have "- (2 ^ 31) \<le> ?w * ?h" by (rule order_trans [rotated]) simp
  with fits have "int_fits (?w * ?h)" by (simp add: int_fits_def)
  let ?fb0 = "replicate (nat (?w * ?h)) (Vec3 0 0 0)"
  have alloc: "allocate_framebuffer (image_width cam1) (image_height cam1) = Inr ?fb0"
    using \<open>int_fits (?w * ?h)\<close> size by (simp add: allocate_framebuffer_def f(1) Let_def)
  have "spawn_loop ?h ?W (?h sdiv ?W) 0 = []"
    using W by (simp add: spawn_loop.simps [of ?h ?W "?h sdiv ?W" 0])
  then have part: "partition_rows ?h ?W = Inr []"
    using W by (simp add: partition_rows_def int_div_def)
  let ?cam3 = "cam1\<lparr>sections_remaining := ?W, sections_remaining := ?W\<rparr>"
  have "emit_rows ?cam3 ?fb0 0 [] =
      Inr ([] @ map (\<lambda>k. smul (pixel_samples_scale ?cam3) (?fb0 ! nat k))
                    [0 * image_width ?cam3..image_height ?cam3 * image_width ?cam3 - 1])"
    using h0 w0 size by (intro emit_rows_spec) (simp_all add: f(1) mult.commute)
  then have "emit_rows ?cam3 ?fb0 0 [] =
      Inr (map (\<lambda>k. smul (pixel_samples_scale cam1) (?fb0 ! nat k)) [0..?w * ?h - 1])"
    by (simp add: f(1) mult.commute)
  then have emit: "emit_rows ?cam3 ?fb0 0 [] =
      Inr (replicate (nat (?w * ?h)) (smul (pixel_samples_scale cam1) (Vec3 0 0 0)))"
    using map_upto_replicate [OF size, of "smul (pixel_samples_scale cam1)" "Vec3 0 0 0"]
    by simp
  show ?thesis
    using init alloc part emit by (simp add: render_def Let_def)
qed

section \<open>Properties of the renderer\<close>

subsection \<open>Row partition\<close>



text \<open>
  C10: for every worker count \<open>W\<close> greater than the image height \<open>H\<close> the quotient
  \<open>H / W\<close> is zero: every worker but the last gets the empty range \<open>[0,0)\<close>, the last
  one gets \<open>[0,H)\<close>, and rows and framebuffer indices are still covered exactly once.
\<close>

theorem partition_rows_more_threads_than_rows:
  assumes "0 \<le> H" and "H < W"
  shows "\<exists>secs. partition_rows H W = Inr secs \<and> length secs = nat W
    \<and> (\<forall>t. t < nat W - 1 \<longrightarrow> secs ! t = (0, 0))
    \<and> secs ! (nat W - 1) = (0, H)
    \<and> concat (map section_rows secs) = [0..H - 1]
    \<and> (\<forall>r. 0 \<le> r \<and> r < H \<longrightarrow>
          (\<exists>!t. t < length secs \<and> fst (secs ! t) \<le> r \<and> r < snd (secs ! t)))
    \<and> (\<forall>width. concat (map (section_indices width) secs) = [0..width * H - 1]
          \<and> (\<forall>k. 0 \<le> k \<and> k < width * H \<longrightarrow>
                (\<exists>!t. t < length secs \<and> k \<in> set (section_indices width (secs ! t)))))"
proof -
  from assms have W: "1 \<le> W" by simp
  from assms have q: "H div W = 0" by (simp add: div_pos_pos_trivial)
  have a: "spawn_loop H W (H div W) 0 ! t = (0, 0)" if "t < nat W - 1" for t
    using that spawn_loop_nth [of "int t" W H "H div W"] q by (simp add: nat_diff_distrib) linarith
  have b: "spawn_loop H W (H div W) 0 ! (nat W - 1) = (0, H)"
    using W spawn_loop_nth [of "W - 1" W H "H div W"] q by (simp add: nat_diff_distrib)
  show ?thesis
    using partition_cover [OF assms(1) W] a b
    by (intro exI [of _ "spawn_loop H W (H div W) 0"]) blast
qed

theorem partition_rows_more_threads_than_rows_witness:
  "partition_rows 2 5 = Inr [(0, 0), (0, 0), (0, 0), (0, 0), (0, 2)]
   \<and> concat (map section_rows [(0, 0), (0, 0), (0, 0), (0, 0), (0, 2)]) = [0..1]
   \<and> concat (map (section_indices 3) [(0, 0), (0, 0), (0, 0), (0, 0), (0, 2)]) = [0..5]"
proof -
  have p: "partition_rows 2 5 = Inr [(0, 0), (0, 0), (0, 0), (0, 0), (0, 2)]"
    by (simp add: partition_rows_def int_div_def sdiv_nonneg spawn_loop.simps)
  from partition_rows_more_threads_than_rows [of 2 5]
  obtain secs where s: "partition_rows 2 5 = Inr secs"
    and rows: "concat (map section_rows secs) = [0..2 - 1]"
    and idx: "\<forall>width. concat (map (section_indices width) secs) = [0..width * 2 - 1]
          \<and> (\<forall>k. 0 \<le> k \<and> k < width * 2 \<longrightarrow>
                (\<exists>!t. t < length secs \<and> k \<in> set (section_indices width (secs ! t))))"
    by auto
  from s p have secs: "secs = [(0, 0), (0, 0), (0, 0), (0, 0), (0, 2)]" by simp
  from rows idx [rule_format, of 3, THEN conjunct1] p
  show ?thesis unfolding secs by simp
qed

text \<open>
  C6: \<open>render\<close> has no fallback for a platform that reports a hardware concurrency of
  zero. The worker count is then \<open>0\<close>, and the computation of \<open>rows_per_thread\<close>
  divides the image height by zero: the partition fails for every height, and so does
  \<open>render\<close> on the default camera.
\<close>

theorem render_zero_concurrency:
  "sint (0 :: 32 word) = 0 \<and> partition_rows H 0 = Inl Division_By_Zero
   \<and> render default_camera rs world 0 seeds = Inl Division_By_Zero"
  by (simp add: render_def initialize_def default_camera_def double_to_int_def int_fits_def
      allocate_framebuffer_def partition_rows_def int_div_def Let_def
      double_div_16_9 double_div_400_lit)

subsection \<open>Path integrator\<close>

text \<open>
  C3: with \<open>depth \<le> 0\<close> the path integrator returns black \<open>(0,0,0)\<close> for every ray and
  every scene. The result does not depend on the scene or its materials, and the generator
  state comes back unchanged: neither \<open>hit\<close> nor \<open>scatter\<close> is consulted.
\<close>

theorem ray_color_depth_exhausted:
  "depth \<le> 0 \<Longrightarrow> ray_color r depth world g = (Vec3 0 0 0, g)"
  by (simp add: ray_color.simps [of r depth world g])

theorem ray_color_depth_exhausted_witness:
  "ray_color \<lparr>orig = Vec3 (- 1) 0 0, dir = Vec3 1 0 0\<rparr> 0 test_world (0::nat) = (Vec3 0 0 0, 0)"
  using ray_color_depth_exhausted [of 0 "\<lparr>orig = Vec3 (- 1) 0 0, dir = Vec3 1 0 0\<rparr>" test_world 0]
  by simp

text \<open>
  C2: for every ray, every \<open>depth \<ge> 1\<close> and every scene that reports a hit, the path
  integrator asks the material of the hit to scatter. If it scatters, the result is the
  attenuation multiplied component-wise by the color of the scattered ray at
  \<open>depth - 1\<close>; if it absorbs, the result is black \<open>(0,0,0)\<close>.
\<close>

theorem ray_color_hit:
  assumes "1 \<le> depth" and "hit world r \<lparr>lo = 0.001, hi = None\<rparr> = Some rec"
  shows "ray_color r depth world g =
    (case scatter world (rec_mat rec) r rec g of
       (Some (attenuation, scattered), g1) \<Rightarrow>
          (attenuation * fst (ray_color scattered (depth - 1) world g1),
           snd (ray_color scattered (depth - 1) world g1))
     | (None, g1) \<Rightarrow> (Vec3 0 0 0, g1))"
  using assms
  by (simp add: ray_color.simps [of r depth world g] split: prod.splits option.splits)

theorem ray_color_hit_witness:
  "ray_color \<lparr>orig = Vec3 (- 1) 0 0, dir = Vec3 1 0 0\<rparr> 2 test_world (0::nat)
     = (Vec3 (1 / 4) (7 / 20) (1 / 2), 1)
   \<and> ray_color \<lparr>orig = Vec3 0 0 0, dir = Vec3 1 0 0\<rparr> 2 test_world (0::nat) = (Vec3 0 0 0, 0)"
proof -
  have sky: "ray_color \<lparr>orig = Vec3 1 0 0, dir = Vec3 0 1 0\<rparr> 1 test_world (Suc 0)
      = (Vec3 0.5 0.7 1, Suc 0)"
    by (simp add: ray_color.simps [of _ 1] test_world_def unit_vector_up smul_def plus_vec3_def)
  show ?thesis
    using ray_color_hit [of 2 test_world "\<lparr>orig = Vec3 (- 1) 0 0, dir = Vec3 1 0 0\<rparr>"
        "\<lparr>rec_p = Vec3 (- 1) 0 0, rec_normal = Vec3 0 1 0, rec_mat = True, rec_t = 1,
          rec_front_face = True\<rparr>" 0]
      ray_color_hit [of 2 test_world "\<lparr>orig = Vec3 0 0 0, dir = Vec3 1 0 0\<rparr>"
        "\<lparr>rec_p = Vec3 0 0 0, rec_normal = Vec3 0 1 0, rec_mat = False, rec_t = 1,
          rec_front_face = True\<rparr>" 0]
      sky
    by (simp add: test_world_def times_vec3_def)
qed

text \<open>
  C4: for every ray that misses the scene, at \<open>depth \<ge> 1\<close>, the path integrator returns
  \<open>(1 - a) * white + a * skyblue\<close> with \<open>a = 0.5 * (y + 1)\<close>, where \<open>y\<close> is the second
  component of the normalised ray direction. The direction \<open>(0,1,0)\<close> gives exactly
  \<open>(0.5, 0.7, 1.0)\<close> and the direction \<open>(0,-1,0)\<close> gives exactly \<open>(1,1,1)\<close>.
\<close>

theorem ray_color_miss:
  assumes "1 \<le> depth" and "hit world r \<lparr>lo = 0.001, hi = None\<rparr> = None"
  shows "ray_color r depth world g =
      (let a = 0.5 * (vy (unit_vector (dir r)) + 1)
       in (smul (1 - a) (Vec3 1 1 1) + smul a (Vec3 0.5 0.7 1), g))
    \<and> (dir r = Vec3 0 1 0 \<longrightarrow> ray_color r depth world g = (Vec3 0.5 0.7 1, g))
    \<and> (dir r = Vec3 0 (- 1) 0 \<longrightarrow> ray_color r depth world g = (Vec3 1 1 1, g))"
  using assms
  by (simp add: ray_color.simps [of r depth world g] Let_def unit_vector_up unit_vector_down
      smul_def plus_vec3_def)

theorem ray_color_miss_witness:
  "ray_color \<lparr>orig = Vec3 0 0 0, dir = Vec3 0 1 0\<rparr> 1 empty_world (0::nat) = (Vec3 0.5 0.7 1, 0)
   \<and> ray_color \<lparr>orig = Vec3 0 0 0, dir = Vec3 0 (- 1) 0\<rparr> 1 empty_world (0::nat) = (Vec3 1 1 1, 0)"
  using ray_color_miss [of 1 empty_world "\<lparr>orig = Vec3 0 0 0, dir = Vec3 0 1 0\<rparr>" 0,
      THEN conjunct2, THEN conjunct1]
    ray_color_miss [of 1 empty_world "\<lparr>orig = Vec3 0 0 0, dir = Vec3 0 (- 1) 0\<rparr>" 0,
      THEN conjunct2, THEN conjunct2]
  by (simp add: empty_world_def)

subsection \<open>Ray sampler and geometry setup\<close>

text \<open>
  C7: when \<open>defocus_angle \<le> 0\<close>, for every pixel \<open>(i,j)\<close> and every generator state, the
  origin of the sampled ray is the camera center, its direction is the jittered pixel sample
  position minus that origin, and the only random numbers drawn are those of the pixel
  jitter: the lens disk is not sampled.
\<close>

theorem get_ray_no_defocus:
  assumes "defocus_angle cam \<le> 0"
  shows "orig (fst (get_ray cam rs i j g)) = center cam
    \<and> dir (fst (get_ray cam rs i j g)) =
        (pixel00_loc cam
          + smul (real_of_int i + vx (fst (sample_square rs g))) (pixel_delta_u cam)
          + smul (real_of_int j + vy (fst (sample_square rs g))) (pixel_delta_v cam))
        - orig (fst (get_ray cam rs i j g))
    \<and> snd (get_ray cam rs i j g) = snd (sample_square rs g)"
  using assms by (simp add: get_ray_def Let_def split: prod.splits)

theorem get_ray_no_defocus_witness:
  "get_ray test_camera test_source 1 0 (0::nat)
     = (\<lparr>orig = Vec3 0 0 0, dir = Vec3 1 1 (- 1)\<rparr>, 2)"
proof -
  have sq: "sample_square test_source (0::nat) = (Vec3 0 0 0, 2)"
    by (simp add: sample_square_def test_source_def numeral_2_eq_2)
  have d: "defocus_angle test_camera \<le> 0"
    by (simp add: test_camera_def default_camera_def)
  have c: "center test_camera = Vec3 0 0 0" "pixel00_loc test_camera = Vec3 (- 1) 1 (- 1)"
    "pixel_delta_u test_camera = Vec3 2 0 0" "pixel_delta_v test_camera = Vec3 0 (- 2) 0"
    by (simp_all add: test_camera_def default_camera_def)
  obtain r g' where rg: "get_ray test_camera test_source 1 0 (0::nat) = (r, g')"
    by (cases "get_ray test_camera test_source 1 0 (0::nat)")
  from get_ray_no_defocus [OF d, of test_source 1 0 0]
  have "orig r = Vec3 0 0 0" "dir r = Vec3 1 1 (- 1)" "g' = 2"
    by (simp_all add: rg sq c smul_def plus_vec3_def minus_vec3_def)
  then show ?thesis using rg by (cases r) simp
qed

text \<open>
  C8 (amended): for every camera with \<open>image_width \<ge> 1\<close> and positive \<open>aspect_ratio\<close>,
  let \<open>q\<close> be the quotient \<open>image_width / aspect_ratio\<close> as the division of doubles
  gives it, that is the exact quotient rounded to the nearest double. If
  \<open>floor q < 2^31\<close>, \<open>initialize\<close> succeeds and the derived image height is
  \<open>max 1 (floor q)\<close>. Width 400 with the aspect ratio \<open>16.0 / 9.0\<close> gives height 225.
\<close>

theorem initialize_image_height:
  assumes "1 \<le> image_width cam" and "0 < aspect_ratio cam"
    and "\<lfloor>double_div (real_of_int (image_width cam)) (aspect_ratio cam)\<rfloor> < 2 ^ 31"
  shows "map_sum id image_height (initialize cam)
    = Inr (max 1 \<lfloor>double_div (real_of_int (image_width cam)) (aspect_ratio cam)\<rfloor>)"
proof -
  let ?q = "double_div (real_of_int (image_width cam)) (aspect_ratio cam)"
  have "0 \<le> real_of_int (image_width cam) / aspect_ratio cam" using assms by simp
  then have q: "0 \<le> ?q" unfolding double_div_def by (rule round_double_nonneg)
  then have "0 \<le> \<lfloor>?q\<rfloor>" by simp
  moreover have "- (2 ^ 31) \<le> (0::int)" by simp
  ultimately have "- (2 ^ 31) \<le> \<lfloor>?q\<rfloor>" by (rule order_trans [rotated])
  with assms(3) have "int_fits \<lfloor>?q\<rfloor>" unfolding int_fits_def by simp
  with q have "double_to_int ?q = Inr \<lfloor>?q\<rfloor>"
    by (simp add: double_to_int_def)
  then show ?thesis using assms(2) by (simp add: initialize_def Let_def max_def)
qed

text \<open>
  Two instances: the default camera, and width 3 with the double nearest to \<open>0.1\<close> as
  aspect ratio, where the rounded quotient is 30 although the exact one is below 30.
\<close>

theorem initialize_image_height_witness:
  "map_sum id image_height (initialize default_camera) = Inr 225
   \<and> map_sum id image_height
        (initialize (default_camera\<lparr>image_width := 3,
           aspect_ratio := 3602879701896397 / 36028797018963968\<rparr>)) = Inr 30"
  using initialize_image_height [of default_camera]
    initialize_image_height [of "default_camera\<lparr>image_width := 3,
           aspect_ratio := 3602879701896397 / 36028797018963968\<rparr>"]
  by (simp add: default_camera_def double_div_16_9 double_div_400_lit double_div_3_tenth)

text \<open>
  C8 as stated, for every positive aspect ratio, fails: with width 400 and aspect ratio
  \<open>2^-27\<close> the quotient is \<open>400 * 2^27 = 53687091200\<close>, which is not an \<open>int\<close>, and
  the conversion of \<open>initialize\<close> is undefined.
\<close>

theorem initialize_image_height_overflow:
  "initialize (default_camera\<lparr>aspect_ratio := 1 / 134217728\<rparr>) = Inl Int_Conversion_Overflow"
  by (simp add: initialize_def default_camera_def double_to_int_def int_fits_def
      double_div_overflow)

subsection \<open>The render call\<close>

text \<open>
  C5 (amended): when \<open>initialize\<close> succeeds, \<open>image_width \<ge> 0\<close>, the framebuffer size
  \<open>image_width * image_height\<close> is an \<open>int\<close>, the hardware concurrency stored in the
  \<open>int thread_count\<close> is at least 1 and \<open>samples_per_pixel \<ge> 1\<close>, \<open>render\<close> returns.
  For every pixel \<open>(i,j)\<close> of the image the framebuffer entry at index
  \<open>j * image_width + i\<close> after the join is the sum, added up from \<open>(0,0,0)\<close> in sampling
  order, of the colors of \<open>samples_per_pixel\<close> rays sampled for that pixel, not their
  average; and the color handed to emission at that index is this sum scaled by
  \<open>pixel_samples_scale = 1 / samples_per_pixel\<close>.
\<close>

theorem render_framebuffer_sums:
  assumes "initialize cam = Inr cam1"
    and "0 \<le> image_width cam"
    and "image_width cam * image_height cam1 < 2 ^ 31"
    and "1 \<le> sint hw"
    and "1 \<le> samples_per_pixel cam"
  shows "\<exists>cam' fb out. render cam rs world hw seeds = Inr (cam', fb, out)
    \<and> int (length fb) = image_width cam * image_height cam1
    \<and> length out = length fb
    \<and> pixel_samples_scale cam1 = 1 / real_of_int (samples_per_pixel cam)
    \<and> (\<forall>i j. 0 \<le> i \<and> i < image_width cam \<and> 0 \<le> j \<and> j < image_height cam1 \<longrightarrow>
          (\<exists>g. length (sample_colors cam1 rs world i j (nat (samples_per_pixel cam)) g)
                  = nat (samples_per_pixel cam)
              \<and> fb ! nat (j * image_width cam + i) =
                  foldl (+) (Vec3 0 0 0)
                    (sample_colors cam1 rs world i j (nat (samples_per_pixel cam)) g))
          \<and> out ! nat (j * image_width cam + i) =
              smul (pixel_samples_scale cam1) (fb ! nat (j * image_width cam + i)))"
proof -
  let ?w = "image_width cam"
  let ?h = "image_height cam1"
  let ?f = "\<lambda>fb k. smul (pixel_samples_scale cam1) (fb ! nat k)"
  note f = initialize_fields [OF assms(1)]
  from render_spec [OF assms(1-4), of rs world seeds]
  obtain fb rem where r: "render cam rs world hw seeds =
        Inr (cam1\<lparr>sections_remaining := rem\<rparr>, fb, map (?f fb) [0..?w * ?h - 1])"
    and len: "int (length fb) = ?w * ?h"
    and px: "\<forall>i j. 0 \<le> i \<and> i < ?w \<and> 0 \<le> j \<and> j < ?h \<longrightarrow>
          (\<exists>g. fb ! nat (j * ?w + i) = pixel_sum cam1 rs world i j g)"
    by blast
  let ?out = "map (?f fb) [0..?w * ?h - 1]"
  have lo: "length ?out = length fb" using len by simp
  have pix: "(\<exists>g. length (sample_colors cam1 rs world i j (nat (samples_per_pixel cam)) g)
                  = nat (samples_per_pixel cam)
              \<and> fb ! nat (j * ?w + i) =
                  foldl (+) (Vec3 0 0 0)
                    (sample_colors cam1 rs world i j (nat (samples_per_pixel cam)) g))
          \<and> ?out ! nat (j * ?w + i) = ?f fb (j * ?w + i)"
    if ij: "0 \<le> i" "i < ?w" "0 \<le> j" "j < ?h" for i j
  proof -
    from px ij obtain g where "fb ! nat (j * ?w + i) = pixel_sum cam1 rs world i j g" by blast
    then have a: "\<exists>g. length (sample_colors cam1 rs world i j (nat (samples_per_pixel cam)) g)
                  = nat (samples_per_pixel cam)
              \<and> fb ! nat (j * ?w + i) =
                  foldl (+) (Vec3 0 0 0)
                    (sample_colors cam1 rs world i j (nat (samples_per_pixel cam)) g)"
      by (auto simp: pixel_sum_def f(2) length_sample_colors)
    have "(j + 1) * ?w \<le> ?h * ?w" using ij by (intro mult_right_mono) auto
    with ij have hi: "j * ?w + i < ?w * ?h" by (simp add: algebra_simps)
    have "0 \<le> j * ?w" using ij by simp
    with ij have "0 \<le> j * ?w + i" by simp
    from nth_map_upto [OF this hi, of "?f fb"] a show ?thesis by simp
  qed
  from r len lo f(5) pix show ?thesis by blast
qed

theorem render_framebuffer_sums_witness:
  "map_sum id (\<lambda>(cam', fb, out). (length fb, length out, fb ! 3, out ! 3))
     (render sum_config test_source test_world 2 (\<lambda>t. 0))
   = Inr (4, 4, Vec3 (1 / 2) (7 / 10) 1, Vec3 (1 / 4) (7 / 20) (1 / 2))"
proof -
  have "\<exists>cam1. initialize sum_config = Inr cam1 \<and> image_height cam1 = 2"
    by (simp add: initialize_def sum_config_def default_camera_def double_to_int_def
        int_fits_def Let_def double_div_2_1)
  then obtain cam1 where init: "initialize sum_config = Inr cam1" and h: "image_height cam1 = 2"
    by blast
  have c: "image_width sum_config = 2" "samples_per_pixel sum_config = 2"
    "max_depth sum_config = 2" "defocus_angle sum_config = 0" "lookfrom sum_config = Vec3 (- 1) 0 0"
    by (simp_all add: sum_config_def default_camera_def)
  note f = initialize_fields [OF init]
  have ps: "pixel_sum cam1 test_source test_world i j g = Vec3 (1 / 2) (7 / 10) 1" for i j g
    by (rule pixel_sum_bounce) (simp_all add: f c)
  have hyp: "0 \<le> image_width sum_config" "image_width sum_config * image_height cam1 < 2 ^ 31"
    "1 \<le> sint (2 :: 32 word)" "1 \<le> samples_per_pixel sum_config"
    by (simp_all add: c h)
  from render_framebuffer_sums [OF init hyp, of test_source test_world "\<lambda>t. 0"]
  obtain cam' fb out where
    r: "render sum_config test_source test_world 2 (\<lambda>t. 0) = Inr (cam', fb, out)"
    and len: "int (length fb) = image_width sum_config * image_height cam1"
    and lo: "length out = length fb"
    and sc: "pixel_samples_scale cam1 = 1 / real_of_int (samples_per_pixel sum_config)"
    and px: "\<forall>i j. 0 \<le> i \<and> i < image_width sum_config \<and> 0 \<le> j \<and> j < image_height cam1 \<longrightarrow>
          (\<exists>g. length (sample_colors cam1 test_source test_world i j
                    (nat (samples_per_pixel sum_config)) g)
                  = nat (samples_per_pixel sum_config)
              \<and> fb ! nat (j * image_width sum_config + i) =
                  foldl (+) (Vec3 0 0 0)
                    (sample_colors cam1 test_source test_world i j
                       (nat (samples_per_pixel sum_config)) g))
          \<and> out ! nat (j * image_width sum_config + i) =
              smul (pixel_samples_scale cam1) (fb ! nat (j * image_width sum_config + i))"
    by blast
  from len have l4: "length fb = 4" by (simp add: c h)
  from px [rule_format, of 1 1] obtain g where
    "fb ! nat 3 = foldl (+) (Vec3 0 0 0) (sample_colors cam1 test_source test_world 1 1 (nat 2) g)"
    and o: "out ! nat 3 = smul (1 / 2) (fb ! nat 3)"
    by (auto simp: c h sc)
  then have "fb ! nat 3 = pixel_sum cam1 test_source test_world 1 1 g"
    by (simp add: pixel_sum_def f(2) c)
  then have fb3: "fb ! 3 = Vec3 (1 / 2) (7 / 10) 1" by (simp add: ps)
  with o have "out ! 3 = Vec3 (1 / 4) (7 / 20) (1 / 2)" by (simp add: smul_def)
  with r l4 lo fb3 show ?thesis by simp
qed

text \<open>
  C5 as stated, for every render call, fails: a hardware concurrency of \<open>4294967295\<close>
  is \<open>-1\<close> in the \<open>int thread_count\<close>, the loop that creates the workers does not
  run, and the framebuffer goes to emission as it was allocated, all \<open>(0,0,0)\<close>,
  although the two samples of every pixel add up to \<open>(0.5, 0.7, 1)\<close>.
\<close>

theorem render_negative_concurrency:
  "map_sum id snd (render sum_config test_source test_world (- 1) test_seeds)
     = Inr (replicate 4 (Vec3 0 0 0), replicate 4 (Vec3 0 0 0))
   \<and> \<not> pixel_done (projr (initialize sum_config)) test_source test_world
         (replicate 4 (Vec3 0 0 0)) 1 1"
proof -
  have "\<exists>cam1. initialize sum_config = Inr cam1 \<and> image_height cam1 = 2"
    by (simp add: initialize_def sum_config_def default_camera_def double_to_int_def
        int_fits_def Let_def double_div_2_1)
  then obtain cam1 where init: "initialize sum_config = Inr cam1" and h: "image_height cam1 = 2"
    by blast
  have c: "image_width sum_config = 2" "samples_per_pixel sum_config = 2"
    "max_depth sum_config = 2" "defocus_angle sum_config = 0" "lookfrom sum_config = Vec3 (- 1) 0 0"
    by (simp_all add: sum_config_def default_camera_def)
  note f = initialize_fields [OF init]
  have ps: "pixel_sum cam1 test_source test_world i j g = Vec3 (1 / 2) (7 / 10) 1" for i j g
    by (rule pixel_sum_bounce) (simp_all add: f c)
  have "map_sum id snd (render sum_config test_source test_world (- 1) test_seeds) =
      Inr (replicate (nat (image_width sum_config * image_height cam1)) (Vec3 0 0 0),
           replicate (nat (image_width sum_config * image_height cam1))
             (smul (pixel_samples_scale cam1) (Vec3 0 0 0)))"
    by (rule render_no_workers [OF init]) (simp_all add: c h)
  then have r: "map_sum id snd (render sum_config test_source test_world (- 1) test_seeds)
     = Inr (replicate 4 (Vec3 0 0 0), replicate 4 (Vec3 0 0 0))"
    by (simp add: c h smul_def)
  have "\<not> pixel_done cam1 test_source test_world (replicate 4 (Vec3 0 0 0)) 1 1"
    by (simp add: pixel_done_def ps f(1) c)
  with r init show ?thesis by simp
qed

text \<open>
  C9: \<open>render\<close> depends on the camera only through its ten configuration members. Two
  cameras with the same configuration, whatever their private members hold, give the same
  result (framebuffer, emitted colors and camera state) for the same scene, random source,
  seeds and hardware concurrency; in particular a second \<open>render\<close> on the camera left by
  the first one reproduces the framebuffer and the output of the first. Every derived member
  is recomputed by \<open>initialize\<close> and the progress counter is reset.
\<close>

theorem render_reproducible:
  "(same_config c1 c2 \<longrightarrow> render c1 rs world hw seeds = render c2 rs world hw seeds)
   \<and> (render c1 rs world hw seeds = Inr (c', fb, out) \<longrightarrow>
        same_config c1 c' \<and> render c' rs world hw seeds = Inr (c', fb, out))"
proof (intro conjI impI)
  assume "same_config c1 c2"
  then show "render c1 rs world hw seeds = render c2 rs world hw seeds"
    by (rule render_same_config)
next
  assume r: "render c1 rs world hw seeds = Inr (c', fb, out)"
  then show "same_config c1 c'" by (rule render_keeps_config)
  then have "render c' rs world hw seeds = render c1 rs world hw seeds"
    by (rule render_same_config [symmetric])
  with r show "render c' rs world hw seeds = Inr (c', fb, out)" by simp
qed

theorem render_reproducible_witness:
  "render test_config test_source empty_world 2 (\<lambda>t. 0)
     = render (test_config\<lparr>image_height := 77, pixel00_loc := Vec3 9 9 9,
                 pixel_delta_u := Vec3 1 2 3, sections_remaining := 5\<rparr>)
         test_source empty_world 2 (\<lambda>t. 0)
   \<and> (\<exists>c' fb out. render test_config test_source empty_world 2 (\<lambda>t. 0) = Inr (c', fb, out)
        \<and> same_config test_config c'
        \<and> render c' test_source empty_world 2 (\<lambda>t. 0) = Inr (c', fb, out))"
proof -
  let ?stale = "test_config\<lparr>image_height := 77, pixel00_loc := Vec3 9 9 9,
                 pixel_delta_u := Vec3 1 2 3, sections_remaining := 5\<rparr>"
  have s: "same_config test_config ?stale"
    by (simp add: same_config_def)
  from render_test_config_returns obtain c' fb out
    where r: "render test_config test_source empty_world 2 (\<lambda>t. 0) = Inr (c', fb, out)"
    by blast
  from s r render_reproducible [of test_config ?stale test_source empty_world 2 "\<lambda>t. 0" c' fb out]
  show ?thesis by blast
qed

end
